theory Spec2Isabelle
  imports Main "HOL-Library.Word"
begin

unbundle bit_operations_syntax

section \<open>The machine state\<close>

text \<open>
  Modelled from the spec: the typedefs \<open>byte\<close> and \<open>word\<close> of the header \<open>cpu.h\<close>, which
  is not among the sources: an unsigned 8-bit and an unsigned 16-bit value.
\<close>

type_synonym byte = "8 word"
type_synonym word16 = "16 word"

text \<open>
  An access outside an array of the machine is undefined behaviour in C. The model makes
  it a value: every operation that indexes an array with a computed index returns
  \<open>Inl OutOfBounds\<close> when the index leaves the array.
\<close>

datatype error = OutOfBounds

text \<open>
  Modelled from the spec: the declaration of \<open>struct machine_t\<close> (header \<open>cpu.h\<close>) is
  not among the sources; the fields are the ones the interpreter uses, with the sizes the spec
  gives them: 4096 bytes of memory, 16 byte registers, a 16-bit address register
  (\<open>i\<close> in the source, \<open>i_reg\<close> here), a program counter, 16 stack slots, a stack pointer,
  two byte timers, 2048 screen cells, the key-wait register (\<open>-1\<close> when not waiting) and
  the two host capabilities. Arrays are functions from the index; the valid indices are
  written out where the source computes one. \<open>sp\<close> and \<open>wait_key\<close> are the values of the
  C \<open>char\<close> fields. \<open>keydown\<close> is \<open>None\<close> for a null function pointer and otherwise the
  key state the host reports during the call (\<open>True\<close> for a nonzero status).
  \<open>speaker\<close> says whether the speaker handler is set.
\<close>

record machine_t =
  mem :: "nat \<Rightarrow> byte"
  v :: "nat \<Rightarrow> byte"
  i_reg :: word16
  pc :: word16
  stack :: "nat \<Rightarrow> word16"
  sp :: int
  dt :: byte
  st :: byte
  screen :: "nat \<Rightarrow> byte"
  wait_key :: int
  keydown :: "(nat \<Rightarrow> bool) option"
  speaker :: bool

section \<open>The decoder\<close>

definition OPCODE_NNN :: "word16 \<Rightarrow> word16" where
  "OPCODE_NNN opcode = opcode AND 0xFFF"

definition OPCODE_KK :: "word16 \<Rightarrow> word16" where
  "OPCODE_KK opcode = opcode AND 0xFF"

definition OPCODE_N :: "word16 \<Rightarrow> word16" where
  "OPCODE_N opcode = opcode AND 0xF"

definition OPCODE_X :: "word16 \<Rightarrow> word16" where
  "OPCODE_X opcode = drop_bit 8 opcode AND 0xF"

definition OPCODE_Y :: "word16 \<Rightarrow> word16" where
  "OPCODE_Y opcode = drop_bit 4 opcode AND 0xF"

definition OPCODE_P :: "word16 \<Rightarrow> word16" where
  "OPCODE_P opcode = drop_bit 12 opcode"

section \<open>The instruction handlers\<close>

definition nibble_0 :: "machine_t \<Rightarrow> word16 \<Rightarrow> error + machine_t" where
  "nibble_0 cpu opcode =
     (if opcode = 0x00e0 then
        Inr (cpu\<lparr>screen := (\<lambda>p. if p < 2048 then 0 else screen cpu p)\<rparr>)
      else if opcode = 0x00ee then
        (if sp cpu > 0 then
           (if sp cpu - 1 < 16 then
              Inr (cpu\<lparr>sp := sp cpu - 1, pc := stack cpu (nat (sp cpu - 1))\<rparr>)
            else Inl OutOfBounds)
         else Inr cpu)
      else Inr cpu)"

definition nibble_1 :: "machine_t \<Rightarrow> word16 \<Rightarrow> machine_t" where
  "nibble_1 cpu opcode = cpu\<lparr>pc := OPCODE_NNN opcode\<rparr>"

definition nibble_2 :: "machine_t \<Rightarrow> word16 \<Rightarrow> error + machine_t" where
  "nibble_2 cpu opcode =
     (if sp cpu < 16 then
        (if 0 \<le> sp cpu then
           Inr (cpu\<lparr>stack := (stack cpu)(nat (sp cpu) := pc cpu),
                    sp := sp cpu + 1,
                    pc := OPCODE_NNN opcode\<rparr>)
         else Inl OutOfBounds)
      else Inr cpu)"

definition nibble_3 :: "machine_t \<Rightarrow> word16 \<Rightarrow> machine_t" where
  "nibble_3 cpu opcode =
     (if ucast (v cpu (unat (OPCODE_X opcode))) = OPCODE_KK opcode
      then cpu\<lparr>pc := (pc cpu + 2) AND 0xfff\<rparr> else cpu)"

definition nibble_4 :: "machine_t \<Rightarrow> word16 \<Rightarrow> machine_t" where
  "nibble_4 cpu opcode =
     (if ucast (v cpu (unat (OPCODE_X opcode))) \<noteq> OPCODE_KK opcode
      then cpu\<lparr>pc := (pc cpu + 2) AND 0xfff\<rparr> else cpu)"

definition nibble_5 :: "machine_t \<Rightarrow> word16 \<Rightarrow> machine_t" where
  "nibble_5 cpu opcode =
     (if v cpu (unat (OPCODE_X opcode)) = v cpu (unat (OPCODE_Y opcode))
      then cpu\<lparr>pc := (pc cpu + 2) AND 0xfff\<rparr> else cpu)"

definition nibble_6 :: "machine_t \<Rightarrow> word16 \<Rightarrow> machine_t" where
  "nibble_6 cpu opcode =
     cpu\<lparr>v := (v cpu)(unat (OPCODE_X opcode) := ucast (OPCODE_KK opcode))\<rparr>"

definition nibble_7 :: "machine_t \<Rightarrow> word16 \<Rightarrow> machine_t" where
  "nibble_7 cpu opcode =
     cpu\<lparr>v := (v cpu)(unat (OPCODE_X opcode) :=
             v cpu (unat (OPCODE_X opcode)) + ucast (OPCODE_KK opcode))\<rparr>"

text \<open>
  The flag of every operation of family 8 is stored before the operation itself, in two
  assignments, as in the source: the second assignment reads the registers the first one
  left. The operands of \<open>+\<close> and \<open>>\<close> are promoted to \<open>int\<close> in C; \<open>uint\<close> is that value.
\<close>

definition set_v :: "machine_t \<Rightarrow> nat \<Rightarrow> byte \<Rightarrow> machine_t" where
  "set_v cpu r b = cpu\<lparr>v := (v cpu)(r := b)\<rparr>"

definition nibble_8 :: "machine_t \<Rightarrow> word16 \<Rightarrow> machine_t" where
  "nibble_8 cpu opcode =
     (let x = unat (OPCODE_X opcode); y = unat (OPCODE_Y opcode); n = OPCODE_N opcode in
      if n = 0 then set_v cpu x (v cpu y)
      else if n = 1 then set_v cpu x (v cpu x OR v cpu y)
      else if n = 2 then set_v cpu x (v cpu x AND v cpu y)
      else if n = 3 then set_v cpu x (v cpu x XOR v cpu y)
      else if n = 4 then
        (let cpu1 = set_v cpu 0xf
                      (if uint (v cpu x) > ((uint (v cpu x) + uint (v cpu y)) AND 0xFF)
                       then 1 else 0)
         in set_v cpu1 x (v cpu1 x + v cpu1 y))
      else if n = 5 then
        (let cpu1 = set_v cpu 0xf (if v cpu x > v cpu y then 1 else 0)
         in set_v cpu1 x (v cpu1 x - v cpu1 y))
      else if n = 6 then
        (let cpu1 = set_v cpu 0xf (v cpu x AND 1)
         in set_v cpu1 x (drop_bit 1 (v cpu1 x)))
      else if n = 7 then
        (let cpu1 = set_v cpu 0xF (if v cpu y > v cpu x then 1 else 0)
         in set_v cpu1 x (v cpu1 y - v cpu1 x))
      else if n = 0xE then
        (let cpu1 = set_v cpu 0xF (if v cpu x AND 0x80 \<noteq> 0 then 1 else 0)
         in set_v cpu1 x (push_bit 1 (v cpu1 x)))
      else cpu)"

definition nibble_9 :: "machine_t \<Rightarrow> word16 \<Rightarrow> machine_t" where
  "nibble_9 cpu opcode =
     (if v cpu (unat (OPCODE_X opcode)) \<noteq> v cpu (unat (OPCODE_Y opcode))
      then cpu\<lparr>pc := (pc cpu + 2) AND 0xFFF\<rparr> else cpu)"

definition nibble_A :: "machine_t \<Rightarrow> word16 \<Rightarrow> machine_t" where
  "nibble_A cpu opcode = cpu\<lparr>i_reg := OPCODE_NNN opcode\<rparr>"

definition nibble_B :: "machine_t \<Rightarrow> word16 \<Rightarrow> machine_t" where
  "nibble_B cpu opcode = cpu\<lparr>pc := (ucast (v cpu 0) + OPCODE_NNN opcode) AND 0xFFF\<rparr>"

text \<open>\<open>rnd\<close> is the value \<open>rand()\<close> returns in this call.\<close>

definition nibble_C :: "int \<Rightarrow> machine_t \<Rightarrow> word16 \<Rightarrow> machine_t" where
  "nibble_C rnd cpu opcode =
     set_v cpu (unat (OPCODE_X opcode)) (word_of_int (rnd AND uint (OPCODE_KK opcode)))"

text \<open>
  One pass of the inner loop of the draw instruction: column \<open>c\<close> of sprite row \<open>j\<close>.
  The coordinates are read from the registers at every pixel, as in the source.
\<close>

definition draw_pixel :: "nat \<Rightarrow> nat \<Rightarrow> nat \<Rightarrow> byte \<Rightarrow> machine_t \<Rightarrow> nat \<Rightarrow> machine_t" where
  "draw_pixel x y j sprite cpu c =
     (let px = (unat (v cpu x) + c) AND 63;
          py = (unat (v cpu y) + j) AND 31;
          pos = 64 * py + px;
          pixel = (if sprite AND push_bit (7 - c) 1 \<noteq> 0 then 1 else 0 :: byte);
          cpu1 = set_v cpu 15 (v cpu 15 OR (screen cpu pos AND pixel))
      in cpu1\<lparr>screen := (screen cpu1)(pos := screen cpu1 pos XOR pixel)\<rparr>)"

definition draw_row :: "nat \<Rightarrow> nat \<Rightarrow> nat \<Rightarrow> byte \<Rightarrow> machine_t \<Rightarrow> machine_t" where
  "draw_row x y j sprite cpu = foldl (draw_pixel x y j sprite) cpu [0..<8]"

fun draw_rows :: "nat \<Rightarrow> nat \<Rightarrow> nat list \<Rightarrow> machine_t \<Rightarrow> error + machine_t" where
  "draw_rows x y [] cpu = Inr cpu"
| "draw_rows x y (j # js) cpu =
     (if unat (i_reg cpu) + j < 4096
      then draw_rows x y js (draw_row x y j (mem cpu (unat (i_reg cpu) + j)) cpu)
      else Inl OutOfBounds)"

definition nibble_D :: "machine_t \<Rightarrow> word16 \<Rightarrow> error + machine_t" where
  "nibble_D cpu opcode =
     draw_rows (unat (OPCODE_X opcode)) (unat (OPCODE_Y opcode))
       [0..<unat (OPCODE_N opcode)] (set_v cpu 15 0)"

definition skip_if :: "bool \<Rightarrow> machine_t \<Rightarrow> machine_t" where
  "skip_if b cpu = (if b then cpu\<lparr>pc := (pc cpu + 2) AND 0xFFF\<rparr> else cpu)"

definition nibble_E :: "machine_t \<Rightarrow> word16 \<Rightarrow> machine_t" where
  "nibble_E cpu opcode =
     (let key = v cpu (unat (OPCODE_X opcode)) in
      if OPCODE_KK opcode = 0x9E then
        (case keydown cpu of
           None \<Rightarrow> cpu
         | Some down \<Rightarrow> skip_if (down (unat (key AND 0xF))) cpu)
      else if OPCODE_KK opcode = 0xA1 then
        (case keydown cpu of
           None \<Rightarrow> cpu
         | Some down \<Rightarrow> skip_if (\<not> down (unat (key AND 0xF))) cpu)
      else cpu)"

definition mem_write :: "machine_t \<Rightarrow> nat \<Rightarrow> byte \<Rightarrow> error + machine_t" where
  "mem_write cpu a b =
     (if a < 4096 then Inr (cpu\<lparr>mem := (mem cpu)(a := b)\<rparr>) else Inl OutOfBounds)"

fun store_regs :: "nat list \<Rightarrow> machine_t \<Rightarrow> error + machine_t" where
  "store_regs [] cpu = Inr cpu"
| "store_regs (reg # regs) cpu =
     (case mem_write cpu (unat (i_reg cpu) + reg) (v cpu reg) of
        Inl e \<Rightarrow> Inl e
      | Inr cpu1 \<Rightarrow> store_regs regs cpu1)"

fun load_regs :: "nat list \<Rightarrow> machine_t \<Rightarrow> error + machine_t" where
  "load_regs [] cpu = Inr cpu"
| "load_regs (reg # regs) cpu =
     (if unat (i_reg cpu) + reg < 4096
      then load_regs regs (set_v cpu reg (mem cpu (unat (i_reg cpu) + reg)))
      else Inl OutOfBounds)"

definition nibble_F :: "machine_t \<Rightarrow> word16 \<Rightarrow> error + machine_t" where
  "nibble_F cpu opcode =
     (let x = unat (OPCODE_X opcode); kk = OPCODE_KK opcode in
      if kk = 0x07 then Inr (set_v cpu x (dt cpu))
      else if kk = 0x0A then Inr (cpu\<lparr>wait_key := int x\<rparr>)
      else if kk = 0x15 then Inr (cpu\<lparr>dt := v cpu x\<rparr>)
      else if kk = 0x18 then Inr (cpu\<lparr>st := v cpu x\<rparr>)
      else if kk = 0x1E then Inr (cpu\<lparr>i_reg := i_reg cpu + ucast (v cpu x)\<rparr>)
      else if kk = 0x29 then Inr (cpu\<lparr>i_reg := 0x50 + ucast (v cpu x AND 0xF) * 5\<rparr>)
      else if kk = 0x33 then
        (case mem_write cpu (unat (i_reg cpu) + 2) (v cpu x mod 10) of
           Inl e \<Rightarrow> Inl e
         | Inr cpu1 \<Rightarrow>
             (case mem_write cpu1 (unat (i_reg cpu1) + 1) ((v cpu1 x div 10) mod 10) of
                Inl e \<Rightarrow> Inl e
              | Inr cpu2 \<Rightarrow> mem_write cpu2 (unat (i_reg cpu2)) (v cpu2 x div 100)))
      else if kk = 0x55 then store_regs [0..<Suc x] cpu
      else if kk = 0x65 then load_regs [0..<Suc x] cpu
      else Inr cpu)"

text \<open>The handler table, indexed by the most significant nibble of the opcode.\<close>

definition nibbles :: "nat \<Rightarrow> int \<Rightarrow> machine_t \<Rightarrow> word16 \<Rightarrow> error + machine_t" where
  "nibbles p rnd cpu opcode =
     (if p = 0 then nibble_0 cpu opcode
      else if p = 1 then Inr (nibble_1 cpu opcode)
      else if p = 2 then nibble_2 cpu opcode
      else if p = 3 then Inr (nibble_3 cpu opcode)
      else if p = 4 then Inr (nibble_4 cpu opcode)
      else if p = 5 then Inr (nibble_5 cpu opcode)
      else if p = 6 then Inr (nibble_6 cpu opcode)
      else if p = 7 then Inr (nibble_7 cpu opcode)
      else if p = 8 then Inr (nibble_8 cpu opcode)
      else if p = 9 then Inr (nibble_9 cpu opcode)
      else if p = 10 then Inr (nibble_A cpu opcode)
      else if p = 11 then Inr (nibble_B cpu opcode)
      else if p = 12 then Inr (nibble_C rnd cpu opcode)
      else if p = 13 then nibble_D cpu opcode
      else if p = 14 then Inr (nibble_E cpu opcode)
      else if p = 15 then nibble_F cpu opcode
      else Inl OutOfBounds)"

section \<open>Initialisation, the step loop and the timers\<close>

definition hexcodes :: "byte list" where
  "hexcodes =
    [0xF0, 0x90, 0x90, 0x90, 0xF0,
     0x20, 0x60, 0x20, 0x20, 0x70,
     0xF0, 0x10, 0xF0, 0x80, 0xF0,
     0xF0, 0x10, 0xF0, 0x10, 0xF0,
     0x90, 0x90, 0xF0, 0x10, 0x10,
     0xF0, 0x80, 0xF0, 0x10, 0xF0,
     0xF0, 0x80, 0xF0, 0x90, 0xF0,
     0xF0, 0x10, 0x20, 0x40, 0x40,
     0xF0, 0x90, 0xF0, 0x90, 0xF0,
     0xF0, 0x90, 0xF0, 0x10, 0xF0,
     0xF0, 0x90, 0xF0, 0x90, 0x90,
     0xE0, 0x90, 0xE0, 0x90, 0xE0,
     0xF0, 0x80, 0x80, 0x80, 0xF0,
     0xE0, 0x90, 0x90, 0x90, 0xE0,
     0xF0, 0x80, 0xF0, 0x80, 0xF0,
     0xF0, 0x80, 0xF0, 0x80, 0x80]"

text \<open>
  \<open>init_machine\<close> zeroes the whole structure, copies the 80 font bytes to \<open>0x50\<close>, and
  sets \<open>pc\<close> and \<open>wait_key\<close>; the counter \<open>global_delta\<close> it also resets is the second
  component of the result.
\<close>

definition init_machine :: "machine_t \<times> int" where
  "init_machine =
     (\<lparr>mem = (\<lambda>a. if 0x50 \<le> a \<and> a < 0x50 + 80 then hexcodes ! (a - 0x50) else 0),
       v = (\<lambda>_. 0), i_reg = 0, pc = 0x200, stack = (\<lambda>_. 0), sp = 0, dt = 0, st = 0,
       screen = (\<lambda>_. 0), wait_key = - 1, keydown = None, speaker = False\<rparr>, 0)"

text \<open>
  The key poll of \<open>step_machine\<close>: keys in the order of the list; the first one reported
  down is stored in register \<open>wait_key\<close> and ends the wait.
\<close>

fun poll_keys :: "(nat \<Rightarrow> bool) \<Rightarrow> nat list \<Rightarrow> machine_t \<Rightarrow> error + machine_t" where
  "poll_keys down [] cpu = Inr cpu"
| "poll_keys down (k # ks) cpu =
     (if down k then
        (if 0 \<le> wait_key cpu \<and> wait_key cpu < 16
         then Inr ((set_v cpu (nat (wait_key cpu)) (of_nat k))\<lparr>wait_key := - 1\<rparr>)
         else Inl OutOfBounds)
      else poll_keys down ks cpu)"

text \<open>The second half of \<open>step_machine\<close>: fetch, advance, dispatch.\<close>

definition fetch :: "machine_t \<Rightarrow> error + word16" where
  "fetch cpu =
     (if unat (pc cpu) + 1 < 4096
      then Inr (push_bit 8 (ucast (mem cpu (unat (pc cpu)))) OR
                ucast (mem cpu (unat (pc cpu) + 1)))
      else Inl OutOfBounds)"

definition fetch_execute :: "int \<Rightarrow> machine_t \<Rightarrow> error + machine_t" where
  "fetch_execute rnd cpu =
     (case fetch cpu of
        Inl e \<Rightarrow> Inl e
      | Inr opcode \<Rightarrow>
          nibbles (unat (OPCODE_P opcode)) rnd (cpu\<lparr>pc := (pc cpu + 2) AND 0xFFF\<rparr>) opcode)"

definition step_machine :: "int \<Rightarrow> machine_t \<Rightarrow> error + machine_t" where
  "step_machine rnd cpu =
     (if wait_key cpu \<noteq> - 1 \<and> keydown cpu \<noteq> None then
        (case poll_keys (the (keydown cpu)) [0..<16] cpu of
           Inl e \<Rightarrow> Inl e
         | Inr cpu1 \<Rightarrow>
             if wait_key cpu1 \<noteq> - 1 then Inr cpu1 else fetch_execute rnd cpu1)
      else fetch_execute rnd cpu)"

text \<open>
  One timer tick, the body of the loop of \<open>update_time\<close>. The calls of the speaker
  handler are appended to the output \<open>out\<close> (\<open>False\<close> for \<open>speaker(0)\<close>, \<open>True\<close> for
  \<open>speaker(1)\<close>).
\<close>

definition tick :: "machine_t \<Rightarrow> bool list \<Rightarrow> machine_t \<times> bool list" where
  "tick cpu out =
     (let cpu1 = (if dt cpu > 0 then cpu\<lparr>dt := dt cpu - 1\<rparr> else cpu) in
      if st cpu1 > 0 then
        (let cpu2 = cpu1\<lparr>st := st cpu1 - 1\<rparr> in
         if st cpu2 = 0 \<and> speaker cpu2 then (cpu2, out @ [False])
         else if speaker cpu2 then (cpu2, out @ [True])
         else (cpu2, out))
      else (cpu1, out))"

function update_time_loop :: "machine_t \<Rightarrow> int \<Rightarrow> bool list \<Rightarrow> machine_t \<times> int \<times> bool list" where
  "update_time_loop cpu global_delta out =
     (if global_delta > 1000 div 60
      then update_time_loop (fst (tick cpu out)) (global_delta - 1000 div 60) (snd (tick cpu out))
      else (cpu, global_delta, out))"
  by pat_completeness auto
termination
  by (relation "measure (\<lambda>(cpu, global_delta, out). nat global_delta)") auto

declare update_time_loop.simps [simp del]

text \<open>
  \<open>update_time\<close> takes the static counter \<open>global_delta\<close> with the machine and returns
  both, with the speaker calls it made.
\<close>

definition update_time :: "machine_t \<times> int \<Rightarrow> int \<Rightarrow> machine_t \<times> int \<times> bool list" where
  "update_time m delta = update_time_loop (fst m) (snd m + delta) []"

section \<open>Loading a program\<close>

text \<open>
  \<open>load_rom\<close> of the front end, without the file access: \<open>rom\<close> is the content of the
  file. A file longer than 3584 bytes is refused; otherwise its bytes are placed from
  address \<open>0x200\<close> on. \<open>boot\<close> is \<open>init_machine\<close> followed by \<open>load_rom\<close>, the machine
  before the host installs its keyboard and speaker handlers.
\<close>

definition load_rom :: "byte list \<Rightarrow> machine_t \<Rightarrow> machine_t option" where
  "load_rom rom machine =
     (if length rom > 3584 then None
      else Some (machine\<lparr>mem := (\<lambda>a. if 0x200 \<le> a \<and> a < 0x200 + length rom
                                       then rom ! (a - 0x200) else mem machine a)\<rparr>))"

definition boot :: "byte list \<Rightarrow> machine_t" where
  "boot rom = the (load_rom rom (fst init_machine))"

section \<open>Machines and hosts used in the examples\<close>

text \<open>A host on which key 3 is down, and a host on which no key is down.\<close>

definition host_key3 :: "nat \<Rightarrow> bool" where
  "host_key3 k = (k = 3)"

definition host_no_key :: "nat \<Rightarrow> bool" where
  "host_no_key k = False"

text \<open>
  A machine waiting for a key to store in register 0, with \<open>6107\<close> (load 7 into
  register 1) as its next instruction.
\<close>

definition waiting_machine :: "(nat \<Rightarrow> bool) option \<Rightarrow> machine_t" where
  "waiting_machine host = (boot [0x61, 0x07])\<lparr>wait_key := 0, keydown := host\<rparr>"

text \<open>
  A machine without key capability that waits for a key to store in register 0, with
  \<open>F50A\<close> (wait for a key to store in register 5) as its next instruction.
\<close>

definition waiting_FX0A_machine :: machine_t where
  "waiting_FX0A_machine = (boot [0xF5, 0x0A])\<lparr>wait_key := 0\<rparr>"

text \<open>
  The host's loop over \<open>step_machine\<close>: \<open>n\<close> steps, stopping at the first access out of
  bounds. (The same \<open>rnd\<close> at every step; the examples have no random instruction.)
\<close>

fun steps :: "int \<Rightarrow> nat \<Rightarrow> machine_t \<Rightarrow> error + machine_t" where
  "steps rnd 0 cpu = Inr cpu"
| "steps rnd (Suc n) cpu =
     (case step_machine rnd cpu of Inl e \<Rightarrow> Inl e | Inr cpu1 \<Rightarrow> steps rnd n cpu1)"

text \<open>A machine with 100 in the delay timer and 5 in the sound timer, no speaker.\<close>

definition timer_machine :: machine_t where
  "timer_machine = (fst init_machine)\<lparr>dt := 100, st := 5\<rparr>"

text \<open>
  A machine about to return (\<open>00EE\<close>) with one frame on the stack, whose saved value
  \<open>0xFFFF\<close> is no address of the memory.
\<close>

definition bad_stack_machine :: machine_t where
  "bad_stack_machine = (boot [0x00, 0xEE])\<lparr>stack := (\<lambda>_. 0xFFFF), sp := 1\<rparr>"

text \<open>
  A machine whose address register points at the font glyph of digit 0 (first row
  \<open>0xF0\<close>), with a blank screen; and a machine with the sprite row \<open>0xC0\<close> at \<open>0x300\<close>,
  the address register pointing at it, and the top left cell of the screen set.
\<close>

definition glyph_machine :: machine_t where
  "glyph_machine = (fst init_machine)\<lparr>i_reg := 0x50\<rparr>"

definition flag_sprite_machine :: machine_t where
  "flag_sprite_machine =
     (fst init_machine)\<lparr>mem := (mem (fst init_machine))(0x300 := 0xC0), i_reg := 0x300,
                          screen := (screen (fst init_machine))(0 := 1)\<rparr>"

section \<open>Invariants of the machine state\<close>

text \<open>
  The ranges of the program counter and of the stack pointer, and the range of the
  saved program counters below the stack pointer.
\<close>

definition pc_sp_in_range :: "machine_t \<Rightarrow> bool" where
  "pc_sp_in_range cpu = (pc cpu \<le> 0xFFF \<and> 0 \<le> sp cpu \<and> sp cpu \<le> 16)"

definition stack_in_range :: "machine_t \<Rightarrow> bool" where
  "stack_in_range cpu = list_all (\<lambda>k. stack cpu k \<le> 0xFFF) [0..<nat (sp cpu)]"

definition machine_inv :: "machine_t \<Rightarrow> bool" where
  "machine_inv cpu = (pc_sp_in_range cpu \<and> stack_in_range cpu)"

section \<open>Auxiliary notions of the proofs\<close>

text \<open>
  The draw instruction as a list of pixel operations. \<open>pixel_bit\<close> and \<open>pixel_pos\<close> are
  the pixel value and the cell index that \<open>draw_pixel\<close> computes for column \<open>c\<close> of row
  \<open>j\<close> when the coordinate registers hold \<open>a\<close> and \<open>b\<close>. \<open>plot\<close> applies a list of
  operations (cell, pixel) to a flag and a screen. \<open>sprite_ops\<close> lists the operations of
  the rows \<open>js\<close> of the sprite at \<open>i\<close> in memory \<open>m\<close>. \<open>xmask ops p\<close> is what the
  operations together XOR into cell \<open>p\<close>. \<open>get_fs\<close> and \<open>put_fs\<close> read and write the
  flag register and the screen of a machine.
\<close>

definition pixel_bit :: "byte \<Rightarrow> nat \<Rightarrow> byte" where
  "pixel_bit sprite c = (if sprite AND push_bit (7 - c) 1 \<noteq> 0 then 1 else 0)"

definition pixel_pos :: "byte \<Rightarrow> byte \<Rightarrow> nat \<Rightarrow> nat \<Rightarrow> nat" where
  "pixel_pos a b j c = 64 * ((unat b + j) AND 31) + ((unat a + c) AND 63)"

fun plot :: "(nat \<times> byte) list \<Rightarrow> byte \<times> (nat \<Rightarrow> byte) \<Rightarrow> byte \<times> (nat \<Rightarrow> byte)" where
  "plot [] fs = fs"
| "plot (op # ops) fs =
     plot ops (fst fs OR (snd fs (fst op) AND snd op),
               (snd fs)(fst op := snd fs (fst op) XOR snd op))"

definition sprite_ops :: "(nat \<Rightarrow> byte) \<Rightarrow> nat \<Rightarrow> byte \<Rightarrow> byte \<Rightarrow> nat list \<Rightarrow> (nat \<times> byte) list" where
  "sprite_ops m i a b js =
     map (\<lambda>(j, c). (pixel_pos a b j c, pixel_bit (m (i + j)) c)) (List.product js [0..<8])"

definition get_fs :: "machine_t \<Rightarrow> byte \<times> (nat \<Rightarrow> byte)" where
  "get_fs cpu = (v cpu 15, screen cpu)"

definition put_fs :: "machine_t \<Rightarrow> byte \<times> (nat \<Rightarrow> byte) \<Rightarrow> machine_t" where
  "put_fs cpu fs = cpu\<lparr>v := (v cpu)(15 := fst fs), screen := snd fs\<rparr>"

fun xmask :: "(nat \<times> byte) list \<Rightarrow> nat \<Rightarrow> byte" where
  "xmask [] p = 0"
| "xmask (op # ops) p = (if fst op = p then snd op else 0) XOR xmask ops p"

text \<open>The machine with another value of \<open>wait_key\<close>.\<close>

definition set_wait :: "int \<Rightarrow> machine_t \<Rightarrow> machine_t" where
  "set_wait w cpu = cpu\<lparr>wait_key := w\<rparr>"

section \<open>Decoded fields and arithmetic facts\<close>

lemma OPCODE_X_less: "unat (OPCODE_X opcode) < 16"
proof -
  have "unat (drop_bit 8 opcode AND 0xF) \<le> unat (0xF :: word16)"
    by (rule word_and_le1 [THEN word_le_nat_alt [THEN iffD1]])
  then show ?thesis by (simp add: OPCODE_X_def)
qed

lemma OPCODE_Y_less: "unat (OPCODE_Y opcode) < 16"
proof -
  have "unat (drop_bit 4 opcode AND 0xF) \<le> unat (0xF :: word16)"
    by (rule word_and_le1 [THEN word_le_nat_alt [THEN iffD1]])
  then show ?thesis by (simp add: OPCODE_Y_def)
qed

lemma OPCODE_N_less: "unat (OPCODE_N opcode) < 16"
proof -
  have "unat (opcode AND 0xF) \<le> unat (0xF :: word16)"
    by (rule word_and_le1 [THEN word_le_nat_alt [THEN iffD1]])
  then show ?thesis by (simp add: OPCODE_N_def)
qed

lemma OPCODE_NNN_le: "OPCODE_NNN opcode \<le> 0xFFF"
  unfolding OPCODE_NNN_def by (rule word_and_le1)

lemma OPCODE_P_less: "unat (OPCODE_P opcode) < 16"
proof -
  have "unat opcode < 65536"
    using unsigned_less [of opcode, where 'a = nat] by simp
  then have "unat opcode div 4096 < 16" by arith
  then show ?thesis by (simp add: OPCODE_P_def drop_bit_eq_div unat_div)
qed

lemma byte_bound: "unat (a :: byte) < 256"
  using unsigned_less [of a, where 'a = nat] by simp

lemma and_255_int: "(k :: int) AND 0xFF = k mod 256"
proof -
  have "(255 :: int) = mask 8" by (simp add: mask_eq_exp_minus_1)
  then have "k AND 255 = take_bit 8 k" by (simp add: take_bit_eq_mask)
  then show ?thesis by (simp add: take_bit_eq_mod)
qed

lemma carry_nat:
  assumes "x < (256 :: nat)" and "y < 256"
  shows "((x + y) mod 256 < x) = (255 < x + y)"
proof (cases "255 < x + y")
  case True
  then have "(x + y) mod 256 = (x + y - 256) mod 256"
    by (simp add: le_mod_geq)
  also have "\<dots> = x + y - 256" using assms by simp
  finally show ?thesis using assms True by simp
next
  case False
  then show ?thesis by simp
qed

lemma add_carry:
  "(uint (a :: byte) > ((uint a + uint (b :: byte)) AND 0xFF)) = (unat a + unat b > 255)"
proof -
  have "(uint a + uint b) AND 0xFF = int ((unat a + unat b) mod 256)"
    by (simp add: and_255_int zmod_int)
  then have "(uint a > ((uint a + uint b) AND 0xFF)) = ((unat a + unat b) mod 256 < unat a)"
    by (simp only: uint_nat of_nat_less_iff)
  then show ?thesis
    by (simp only: carry_nat [OF byte_bound byte_bound])
qed

lemma and_fff: "unat ((w :: word16) AND 0xFFF) = unat w mod 4096"
proof -
  have "(0xFFF :: word16) = mask 12" by (simp add: mask_eq_exp_minus_1)
  then have "w AND 0xFFF = take_bit 12 w" by (simp add: take_bit_eq_mask)
  then show ?thesis by (simp add: take_bit_eq_mod unat_mod)
qed

lemma pc_advance: "unat (((w :: word16) + 2) AND 0xFFF) = (unat w + 2) mod 4096"
proof -
  have "unat (w + 2) = (unat w + 2) mod 65536"
    by (simp add: unat_word_ariths)
  then have "unat ((w + 2) AND 0xFFF) = ((unat w + 2) mod 65536) mod 4096"
    by (simp only: and_fff)
  also have "\<dots> = (unat w + 2) mod 4096"
    by (rule mod_mod_cancel) simp
  finally show ?thesis .
qed

lemma suc_mod_twice: "Suc (Suc (Suc (Suc n) mod 4096)) mod 4096 = (n + 4) mod 4096"
proof -
  have "(Suc (Suc n) mod 4096 + 2) mod 4096 = (Suc (Suc n) + 2) mod 4096"
    by (rule mod_add_left_eq)
  then show ?thesis by (simp add: add.commute)
qed

section \<open>Call and return at the limits of the stack\<close>

text \<open>
  Claim C7. The handler of \<open>2NNN\<close> run with \<open>sp = 16\<close>, and the handler of \<open>00EE\<close> run
  with \<open>sp = 0\<close>, return the machine they were given: no field changes.
\<close>

theorem call_ret_limits_unchanged:
  "(sp cpu = 16 \<longrightarrow> nibble_2 cpu opcode = Inr cpu) \<and>
   (sp cpu = 0 \<longrightarrow> nibble_0 cpu 0x00ee = Inr cpu)"
  by (simp add: nibble_2_def nibble_0_def)

text \<open>
  The theorem of claim C7 at two machines: a full stack for the call, the empty stack
  of the initial machine for the return.
\<close>

theorem call_ret_limits_unchanged_witness:
  "sp ((fst init_machine)\<lparr>sp := 16\<rparr>) = 16 \<and>
   nibble_2 ((fst init_machine)\<lparr>sp := 16\<rparr>) 0x2345 = Inr ((fst init_machine)\<lparr>sp := 16\<rparr>) \<and>
   sp (fst init_machine) = 0 \<and>
   nibble_0 (fst init_machine) 0x00ee = Inr (fst init_machine)"
  using call_ret_limits_unchanged [of "(fst init_machine)\<lparr>sp := 16\<rparr>" "0x2345"]
    call_ret_limits_unchanged [of "fst init_machine" 0]
  by (simp add: init_machine_def)

section \<open>Addition with carry\<close>

text \<open>
  Claim C2, as amended. For register indices \<open>X\<close> and \<open>Y\<close> both different from \<open>0xF\<close>
  (\<open>X = Y\<close> included), with \<open>a\<close> and \<open>b\<close> the values of the two registers before the
  instruction, \<open>8XY4\<close> leaves 1 in register \<open>0xF\<close> if \<open>a + b > 255\<close> and 0 otherwise,
  and \<open>(a + b) mod 256\<close> in register \<open>X\<close>.
\<close>

theorem add_8XY4:
  assumes "OPCODE_P opcode = 8" and "OPCODE_N opcode = 4"
    and "unat (OPCODE_X opcode) \<noteq> 15" and "unat (OPCODE_Y opcode) \<noteq> 15"
  shows "nibbles (unat (OPCODE_P opcode)) rnd cpu opcode = Inr (nibble_8 cpu opcode) \<and>
    v (nibble_8 cpu opcode) 15 =
      (if unat (v cpu (unat (OPCODE_X opcode))) + unat (v cpu (unat (OPCODE_Y opcode))) > 255
       then 1 else 0) \<and>
    unat (v (nibble_8 cpu opcode) (unat (OPCODE_X opcode))) =
      (unat (v cpu (unat (OPCODE_X opcode))) + unat (v cpu (unat (OPCODE_Y opcode)))) mod 256"
  using assms
  by (simp add: nibbles_def nibble_8_def Let_def set_v_def add_carry unat_word_ariths)

text \<open>
  The theorem of claim C2 at \<open>8014\<close> with 200 in register 0 and 100 in register 1:
  the carry is set and register 0 holds 44.
\<close>

theorem add_8XY4_witness:
  "OPCODE_P 0x8014 = 8 \<and> OPCODE_N 0x8014 = 4 \<and>
   unat (OPCODE_X 0x8014) \<noteq> 15 \<and> unat (OPCODE_Y 0x8014) \<noteq> 15 \<and>
   v (nibble_8 (set_v (set_v (fst init_machine) 0 200) 1 100) 0x8014) 15 = 1 \<and>
   unat (v (nibble_8 (set_v (set_v (fst init_machine) 0 200) 1 100) 0x8014) 0) = 44"
proof -
  have h: "OPCODE_P 0x8014 = 8" "OPCODE_N 0x8014 = 4"
    "unat (OPCODE_X 0x8014) \<noteq> 15" "unat (OPCODE_Y 0x8014) \<noteq> 15"
    by (simp_all add: OPCODE_P_def OPCODE_N_def OPCODE_X_def OPCODE_Y_def)
  have x: "unat (OPCODE_X 0x8014) = 0" and y: "unat (OPCODE_Y 0x8014) = 1"
    by (simp_all add: OPCODE_X_def OPCODE_Y_def)
  show ?thesis
    using h add_8XY4 [OF h, of 0 "set_v (set_v (fst init_machine) 0 200) 1 100"]
    unfolding x y
    by (simp add: set_v_def)
qed

text \<open>
  Claim C2 as stated fails for \<open>X = 0xF\<close>: with 1 in register \<open>0xF\<close> and 0 in register 0,
  \<open>8F04\<close> has \<open>a = 1\<close>, \<open>b = 0\<close> and no carry; the claim asks for \<open>(a + b) mod 256 = 1\<close>
  in register \<open>X = 0xF\<close>, and the code leaves 0 there.
\<close>

theorem add_8XY4_counterexample:
  "unat (OPCODE_X 0x8F04) = 15 \<and> unat (OPCODE_Y 0x8F04) = 0 \<and> OPCODE_N 0x8F04 = 4 \<and>
   unat (v (set_v (fst init_machine) 15 1) 15) = 1 \<and>
   unat (v (set_v (fst init_machine) 15 1) 0) = 0 \<and>
   unat (v (nibble_8 (set_v (fst init_machine) 15 1) 0x8F04) 15) \<noteq> (1 + 0) mod 256"
  by (simp add: init_machine_def nibble_8_def set_v_def OPCODE_N_def OPCODE_X_def
      OPCODE_Y_def Let_def)

section \<open>Skip instructions\<close>

text \<open>
  Claim C6. In a machine that is not waiting for a key, whose program counter addresses
  a skip opcode of family 3, 4, 5 or 9, one call of \<open>step_machine\<close> returns a machine
  whose program counter is the old one plus 4, modulo \<open>0x1000\<close>, when the condition of
  the opcode holds (register equal to the byte operand for 3, different for 4, the two
  registers equal for 5, different for 9), and the old one plus 2, modulo \<open>0x1000\<close>,
  when it does not.
\<close>

theorem skip_advance:
  assumes "wait_key cpu = - 1" and "fetch cpu = Inr opcode"
    and "OPCODE_P opcode = 3 \<or> OPCODE_P opcode = 4 \<or> OPCODE_P opcode = 5 \<or> OPCODE_P opcode = 9"
  shows "\<not> isl (step_machine rnd cpu) \<and>
    unat (pc (projr (step_machine rnd cpu))) =
      (if (if OPCODE_P opcode = 3
           then ucast (v cpu (unat (OPCODE_X opcode))) = OPCODE_KK opcode
           else if OPCODE_P opcode = 4
           then ucast (v cpu (unat (OPCODE_X opcode))) \<noteq> OPCODE_KK opcode
           else if OPCODE_P opcode = 5
           then v cpu (unat (OPCODE_X opcode)) = v cpu (unat (OPCODE_Y opcode))
           else v cpu (unat (OPCODE_X opcode)) \<noteq> v cpu (unat (OPCODE_Y opcode)))
       then (unat (pc cpu) + 4) mod 4096 else (unat (pc cpu) + 2) mod 4096)"
proof -
  have s: "step_machine rnd cpu =
      nibbles (unat (OPCODE_P opcode)) rnd (cpu\<lparr>pc := (pc cpu + 2) AND 0xFFF\<rparr>) opcode"
    using assms(1,2) by (simp add: step_machine_def fetch_execute_def)
  from assms(3) show ?thesis
    unfolding s
    by (elim disjE)
      (simp_all add: nibbles_def nibble_3_def nibble_4_def nibble_5_def nibble_9_def
        pc_advance suc_mod_twice)
qed

text \<open>
  The theorem of claim C6 at the program \<open>3000\<close> (skip if register 0 equals 0) on the
  initial machine: the condition holds and the program counter goes from \<open>0x200\<close> to
  \<open>0x204\<close>.
\<close>

theorem skip_advance_witness:
  "wait_key (boot [0x30, 0x00]) = - 1 \<and> fetch (boot [0x30, 0x00]) = Inr 0x3000 \<and>
   OPCODE_P 0x3000 = 3 \<and> \<not> isl (step_machine 0 (boot [0x30, 0x00])) \<and>
   unat (pc (projr (step_machine 0 (boot [0x30, 0x00])))) = 0x204"
proof -
  have h1: "wait_key (boot [0x30, 0x00]) = - 1"
    by (simp add: boot_def load_rom_def init_machine_def)
  have h2: "fetch (boot [0x30, 0x00]) = Inr 0x3000"
    by (simp add: boot_def load_rom_def init_machine_def fetch_def)
  have p: "OPCODE_P 0x3000 = 3" by (simp add: OPCODE_P_def)
  then have h3: "OPCODE_P 0x3000 = 3 \<or> OPCODE_P 0x3000 = 4 \<or> OPCODE_P 0x3000 = 5
      \<or> OPCODE_P 0x3000 = 9"
    by simp
  show ?thesis
    using h1 h2 p skip_advance [OF h1 h2 h3, of 0]
    by (simp add: boot_def load_rom_def init_machine_def OPCODE_X_def OPCODE_KK_def)
qed

section \<open>The machine does not read \<open>wait_key\<close> outside the key poll\<close>

lemma set_wait_sel:
  "mem (set_wait w cpu) = mem cpu" "v (set_wait w cpu) = v cpu"
  "i_reg (set_wait w cpu) = i_reg cpu" "pc (set_wait w cpu) = pc cpu"
  "stack (set_wait w cpu) = stack cpu" "sp (set_wait w cpu) = sp cpu"
  "dt (set_wait w cpu) = dt cpu" "st (set_wait w cpu) = st cpu"
  "screen (set_wait w cpu) = screen cpu" "wait_key (set_wait w cpu) = w"
  "keydown (set_wait w cpu) = keydown cpu" "speaker (set_wait w cpu) = speaker cpu"
  by (simp_all add: set_wait_def)

lemma set_wait_upd:
  "mem_update fm (set_wait w cpu) = set_wait w (mem_update fm cpu)"
  "v_update fv (set_wait w cpu) = set_wait w (v_update fv cpu)"
  "i_reg_update fi (set_wait w cpu) = set_wait w (i_reg_update fi cpu)"
  "pc_update fp (set_wait w cpu) = set_wait w (pc_update fp cpu)"
  "stack_update fs (set_wait w cpu) = set_wait w (stack_update fs cpu)"
  "sp_update fq (set_wait w cpu) = set_wait w (sp_update fq cpu)"
  "dt_update fd (set_wait w cpu) = set_wait w (dt_update fd cpu)"
  "st_update ft (set_wait w cpu) = set_wait w (st_update ft cpu)"
  "screen_update fc (set_wait w cpu) = set_wait w (screen_update fc cpu)"
  by (simp_all add: set_wait_def)

lemma set_wait_set_v: "set_v (set_wait w cpu) r b = set_wait w (set_v cpu r b)"
  by (simp add: set_v_def set_wait_sel set_wait_upd)

lemmas set_wait_simps = set_wait_sel set_wait_upd set_wait_set_v

lemma draw_pixel_wait: "draw_pixel x y j sprite (set_wait w cpu) c = set_wait w (draw_pixel x y j sprite cpu c)"
  by (simp add: draw_pixel_def Let_def set_wait_simps)

lemma foldl_draw_pixel_wait:
  "foldl (draw_pixel x y j sprite) (set_wait w cpu) cs = set_wait w (foldl (draw_pixel x y j sprite) cpu cs)"
  by (induction cs arbitrary: cpu) (simp_all add: draw_pixel_wait)

lemma draw_rows_wait:
  "draw_rows x y js (set_wait w cpu) = map_sum id (set_wait w) (draw_rows x y js cpu)"
  by (induction js arbitrary: cpu) (simp_all add: draw_row_def foldl_draw_pixel_wait set_wait_simps)

lemma store_regs_wait:
  "store_regs regs (set_wait w cpu) = map_sum id (set_wait w) (store_regs regs cpu)"
  by (induction regs arbitrary: cpu) (simp_all add: mem_write_def set_wait_simps)

lemma load_regs_wait:
  "load_regs regs (set_wait w cpu) = map_sum id (set_wait w) (load_regs regs cpu)"
  by (induction regs arbitrary: cpu) (simp_all add: set_wait_simps)

lemma nibble_F_wait:
  "nibble_F (set_wait w cpu) opcode =
     (if OPCODE_KK opcode = 0x0A then nibble_F cpu opcode
      else map_sum id (set_wait w) (nibble_F cpu opcode))"
  by (simp add: nibble_F_def Let_def mem_write_def store_regs_wait load_regs_wait set_wait_simps)

lemma nibble_0_wait:
  "nibble_0 (set_wait w cpu) opcode = map_sum id (set_wait w) (nibble_0 cpu opcode)"
  unfolding nibble_0_def set_wait_sel by (simp add: set_wait_upd)

lemma nibble_2_wait:
  "nibble_2 (set_wait w cpu) opcode = map_sum id (set_wait w) (nibble_2 cpu opcode)"
  by (simp add: nibble_2_def set_wait_simps)

lemma nibble_D_wait:
  "nibble_D (set_wait w cpu) opcode = map_sum id (set_wait w) (nibble_D cpu opcode)"
  by (simp add: nibble_D_def draw_rows_wait set_wait_simps)

lemma nibble_8_wait: "nibble_8 (set_wait w cpu) opcode = set_wait w (nibble_8 cpu opcode)"
  by (simp add: nibble_8_def Let_def set_wait_simps)

lemma nibble_E_wait: "nibble_E (set_wait w cpu) opcode = set_wait w (nibble_E cpu opcode)"
  by (simp add: nibble_E_def Let_def skip_if_def set_wait_simps split: option.split)

lemma nibble_pure_wait:
  "nibble_1 (set_wait w cpu) opcode = set_wait w (nibble_1 cpu opcode)"
  "nibble_3 (set_wait w cpu) opcode = set_wait w (nibble_3 cpu opcode)"
  "nibble_4 (set_wait w cpu) opcode = set_wait w (nibble_4 cpu opcode)"
  "nibble_5 (set_wait w cpu) opcode = set_wait w (nibble_5 cpu opcode)"
  "nibble_6 (set_wait w cpu) opcode = set_wait w (nibble_6 cpu opcode)"
  "nibble_7 (set_wait w cpu) opcode = set_wait w (nibble_7 cpu opcode)"
  "nibble_9 (set_wait w cpu) opcode = set_wait w (nibble_9 cpu opcode)"
  "nibble_A (set_wait w cpu) opcode = set_wait w (nibble_A cpu opcode)"
  "nibble_B (set_wait w cpu) opcode = set_wait w (nibble_B cpu opcode)"
  "nibble_C rnd (set_wait w cpu) opcode = set_wait w (nibble_C rnd cpu opcode)"
  by (simp_all add: nibble_1_def nibble_3_def nibble_4_def nibble_5_def
      nibble_6_def nibble_7_def nibble_9_def nibble_A_def nibble_B_def nibble_C_def
      set_wait_simps)

lemma nibbles_wait:
  "nibbles p rnd (set_wait w cpu) opcode =
     (if p = 15 \<and> OPCODE_KK opcode = 0x0A then nibbles p rnd cpu opcode
      else map_sum id (set_wait w) (nibbles p rnd cpu opcode))"
  by (simp add: nibbles_def nibble_0_wait nibble_2_wait nibble_8_wait nibble_E_wait nibble_D_wait
      nibble_F_wait nibble_pure_wait)

lemma draw_pixel_wait_key: "wait_key (draw_pixel x y j sprite cpu c) = wait_key cpu"
  by (simp add: draw_pixel_def set_v_def Let_def)

lemma foldl_draw_pixel_wait_key: "wait_key (foldl (draw_pixel x y j sprite) cpu cs) = wait_key cpu"
  by (induction cs arbitrary: cpu) (simp_all add: draw_pixel_wait_key)

lemma draw_rows_wait_key: "draw_rows x y js cpu = Inr t \<Longrightarrow> wait_key t = wait_key cpu"
  by (induction js arbitrary: cpu)
    (auto simp add: draw_row_def foldl_draw_pixel_wait_key split: if_splits)

lemma store_regs_wait_key: "store_regs regs cpu = Inr t \<Longrightarrow> wait_key t = wait_key cpu"
  by (induction regs arbitrary: cpu) (auto simp add: mem_write_def split: if_splits)

lemma load_regs_wait_key: "load_regs regs cpu = Inr t \<Longrightarrow> wait_key t = wait_key cpu"
  by (induction regs arbitrary: cpu) (auto simp add: set_v_def split: if_splits)

lemma nibble_F_wait_key:
  "nibble_F cpu opcode = Inr t \<Longrightarrow>
   wait_key t = (if OPCODE_KK opcode = 0x0A then int (unat (OPCODE_X opcode)) else wait_key cpu)"
  by (auto simp add: nibble_F_def Let_def set_v_def mem_write_def
      dest: store_regs_wait_key load_regs_wait_key split: if_splits)

lemma nibble_D_wait_key: "nibble_D cpu opcode = Inr t \<Longrightarrow> wait_key t = wait_key cpu"
  by (auto simp add: nibble_D_def set_v_def dest: draw_rows_wait_key)

lemma nibble_0_wait_key: "nibble_0 cpu opcode = Inr t \<Longrightarrow> wait_key t = wait_key cpu"
  by (auto simp add: nibble_0_def split: if_splits)

lemma nibble_2_wait_key: "nibble_2 cpu opcode = Inr t \<Longrightarrow> wait_key t = wait_key cpu"
  by (auto simp add: nibble_2_def split: if_splits)

lemma nibble_pure_wait_key:
  "wait_key (nibble_1 cpu opcode) = wait_key cpu"
  "wait_key (nibble_3 cpu opcode) = wait_key cpu"
  "wait_key (nibble_4 cpu opcode) = wait_key cpu"
  "wait_key (nibble_5 cpu opcode) = wait_key cpu"
  "wait_key (nibble_6 cpu opcode) = wait_key cpu"
  "wait_key (nibble_7 cpu opcode) = wait_key cpu"
  "wait_key (nibble_8 cpu opcode) = wait_key cpu"
  "wait_key (nibble_9 cpu opcode) = wait_key cpu"
  "wait_key (nibble_A cpu opcode) = wait_key cpu"
  "wait_key (nibble_B cpu opcode) = wait_key cpu"
  "wait_key (nibble_C rnd cpu opcode) = wait_key cpu"
  "wait_key (nibble_E cpu opcode) = wait_key cpu"
  by (simp_all add: nibble_1_def nibble_3_def nibble_4_def nibble_5_def
      nibble_6_def nibble_7_def nibble_8_def nibble_9_def nibble_A_def nibble_B_def nibble_C_def
      nibble_E_def skip_if_def set_v_def Let_def split: option.split)

lemma nibbles_wait_key:
  assumes "nibbles p rnd cpu opcode = Inr t"
  shows "wait_key t =
    (if p = 15 \<and> OPCODE_KK opcode = 0x0A then int (unat (OPCODE_X opcode)) else wait_key cpu)"
proof -
  consider "p = 0" | "p = 2" | "p = 13" | "p = 15" | "p \<notin> {0, 2, 13, 15}" by auto
  then show ?thesis
  proof cases
    case 1 then show ?thesis using assms by (simp add: nibbles_def nibble_0_wait_key)
  next
    case 2 then show ?thesis using assms by (simp add: nibbles_def nibble_2_wait_key)
  next
    case 3 then show ?thesis using assms by (simp add: nibbles_def nibble_D_wait_key)
  next
    case 4 then show ?thesis using assms by (simp add: nibbles_def nibble_F_wait_key)
  next
    case 5 then show ?thesis using assms
      by (auto simp add: nibbles_def nibble_pure_wait_key split: if_splits)
  qed
qed

lemma fetch_wait: "fetch (set_wait w cpu) = fetch cpu"
  by (simp add: fetch_def set_wait_sel)

lemma fetch_execute_wait:
  "fetch_execute rnd (set_wait w cpu) =
     (case fetch cpu of
        Inl e \<Rightarrow> Inl e
      | Inr opcode \<Rightarrow>
          (if unat (OPCODE_P opcode) = 15 \<and> OPCODE_KK opcode = 0x0A then fetch_execute rnd cpu
           else map_sum id (set_wait w) (fetch_execute rnd cpu)))"
  by (simp add: fetch_execute_def fetch_wait set_wait_sel set_wait_upd nibbles_wait
      split: sum.split)

lemma fetch_execute_wait_key:
  assumes "fetch_execute rnd cpu = Inr t" and "fetch cpu = Inr opcode"
  shows "wait_key t =
    (if unat (OPCODE_P opcode) = 15 \<and> OPCODE_KK opcode = 0x0A
     then int (unat (OPCODE_X opcode)) else wait_key cpu)"
  using assms nibbles_wait_key [of "unat (OPCODE_P opcode)" rnd
      "cpu\<lparr>pc := (pc cpu + 2) AND 0xFFF\<rparr>" opcode t]
  by (simp add: fetch_execute_def)


section \<open>Waiting for a key\<close>

lemma poll_keys_none: "\<forall>k \<in> set ks. \<not> down k \<Longrightarrow> poll_keys down ks cpu = Inr cpu"
  by (induction ks) simp_all

lemma poll_keys_first:
  assumes "\<forall>k' \<in> set ks. \<not> down k'" and "down k"
  shows "poll_keys down (ks @ k # rest) cpu =
    (if 0 \<le> wait_key cpu \<and> wait_key cpu < 16
     then Inr ((set_v cpu (nat (wait_key cpu)) (of_nat k))\<lparr>wait_key := - 1\<rparr>)
     else Inl OutOfBounds)"
  using assms by (induction ks) simp_all

lemma upt_split: "k < n \<Longrightarrow> [0..<n] = [0..<k] @ k # [Suc k..<n]"
  by (metis upt_conv_Cons upt_add_eq_append le0 add_0 less_imp_le_nat le_add_diff_inverse)


lemma FX0A_waits:
  assumes "OPCODE_KK opcode = 0x0A"
  shows "nibble_F cpu opcode = Inr (cpu\<lparr>wait_key := int (unat (OPCODE_X opcode))\<rparr>)"
  using assms by (simp add: nibble_F_def Let_def)

text \<open>
  Claim C1, as amended. \<open>FX0A\<close> stores \<open>X\<close>, a value from 0 to 15, in \<open>wait_key\<close>. In a
  machine that waits for register \<open>R\<close> (\<open>wait_key = R\<close>, from 0 to 15) on a host with a
  key capability: if none of the keys 0 to 15 is down, \<open>step_machine\<close> returns the
  machine unchanged (no advance of the program counter, no register change); if \<open>k\<close> is
  the lowest key that is down, the call writes \<open>k\<close> into register \<open>R\<close>, sets \<open>wait_key\<close>
  to \<open>-1\<close> (running), and in the same call fetches and executes the next instruction:
  its result is the result of a step of the running machine with \<open>k\<close> in register \<open>R\<close>.
\<close>

theorem key_wait:
  assumes "keydown cpu = Some down" and "0 \<le> wait_key cpu" and "wait_key cpu < 16"
  shows "(OPCODE_KK opcode = 0x0A \<longrightarrow>
       nibble_F cpu0 opcode = Inr (cpu0\<lparr>wait_key := int (unat (OPCODE_X opcode))\<rparr>) \<and>
       0 \<le> int (unat (OPCODE_X opcode)) \<and> int (unat (OPCODE_X opcode)) < 16) \<and>
    ((\<forall>k<16. \<not> down k) \<longrightarrow> step_machine rnd cpu = Inr cpu) \<and>
    (k < 16 \<and> down k \<and> (\<forall>k'<k. \<not> down k') \<longrightarrow>
       wait_key ((set_v cpu (nat (wait_key cpu)) (of_nat k))\<lparr>wait_key := - 1\<rparr>) = - 1 \<and>
       step_machine rnd cpu =
         step_machine rnd ((set_v cpu (nat (wait_key cpu)) (of_nat k))\<lparr>wait_key := - 1\<rparr>) \<and>
       step_machine rnd cpu =
         fetch_execute rnd ((set_v cpu (nat (wait_key cpu)) (of_nat k))\<lparr>wait_key := - 1\<rparr>))"
proof (intro conjI impI)
  assume "OPCODE_KK opcode = 0x0A"
  then show "nibble_F cpu0 opcode = Inr (cpu0\<lparr>wait_key := int (unat (OPCODE_X opcode))\<rparr>)"
    by (rule FX0A_waits)
  show "0 \<le> int (unat (OPCODE_X opcode))" by simp
  show "int (unat (OPCODE_X opcode)) < 16"
    using OPCODE_X_less [of opcode] by linarith
next
  assume "\<forall>k<16. \<not> down k"
  then have "poll_keys down [0..<16] cpu = Inr cpu"
    by (intro poll_keys_none) simp
  then show "step_machine rnd cpu = Inr cpu"
    using assms by (simp add: step_machine_def)
next
  let ?r = "(set_v cpu (nat (wait_key cpu)) (of_nat k))\<lparr>wait_key := - 1\<rparr>"
  assume h: "k < 16 \<and> down k \<and> (\<forall>k'<k. \<not> down k')"
  show "wait_key ?r = - 1" by simp
  have r: "step_machine rnd ?r = fetch_execute rnd ?r"
    by (simp add: step_machine_def)
  have "[0..<16] = [0..<k] @ k # [Suc k..<16]"
    using h by (intro upt_split) simp
  moreover have "poll_keys down ([0..<k] @ k # [Suc k..<16]) cpu = Inr ?r"
    using h assms by (subst poll_keys_first) simp_all
  ultimately have "poll_keys down [0..<16] cpu = Inr ?r" by simp
  then show "step_machine rnd cpu = fetch_execute rnd ?r"
    using assms by (simp add: step_machine_def)
  then show "step_machine rnd cpu = step_machine rnd ?r"
    using r by simp
qed

text \<open>
  The theorem of claim C1 at the waiting machine: with no key down the step changes
  nothing; with key 3 down the step writes 3 into register 0 and executes \<open>6107\<close>.
\<close>

theorem key_wait_witness:
  "keydown (waiting_machine (Some host_no_key)) = Some host_no_key \<and>
   keydown (waiting_machine (Some host_key3)) = Some host_key3 \<and>
   wait_key (waiting_machine (Some host_key3)) = 0 \<and>
   OPCODE_KK 0xF00A = 0x0A \<and> host_key3 3 \<and> \<not> host_key3 0 \<and> \<not> host_key3 1 \<and> \<not> host_key3 2 \<and>
   step_machine 0 (waiting_machine (Some host_no_key)) = Inr (waiting_machine (Some host_no_key)) \<and>
   step_machine 0 (waiting_machine (Some host_key3)) =
     step_machine 0 ((set_v (waiting_machine (Some host_key3)) 0 3)\<lparr>wait_key := - 1\<rparr>)"
proof -
  have a: "keydown (waiting_machine (Some host_no_key)) = Some host_no_key"
    and b: "keydown (waiting_machine (Some host_key3)) = Some host_key3"
    and c: "0 \<le> wait_key (waiting_machine host)" "wait_key (waiting_machine host) < 16"
    for host
    by (simp_all add: waiting_machine_def)
  have w: "wait_key (waiting_machine (Some host_key3)) = 0"
    by (simp add: waiting_machine_def)
  have d: "\<forall>k<16. \<not> host_no_key k" by (simp add: host_no_key_def)
  have e: "(3::nat) < 16 \<and> host_key3 3 \<and> (\<forall>k'<3. \<not> host_key3 k')"
    by (simp add: host_key3_def)
  show ?thesis
    using a b d e w key_wait [OF a c, of "0xF00A" "fst init_machine" 0 3]
      key_wait [OF b c, of "0xF00A" "fst init_machine" 0 3]
    by (simp add: host_key3_def OPCODE_KK_def)
qed

text \<open>
  Claim C1 as stated fails in its last part: the call in which the key is first
  reported down does fetch and execute an instruction. On the waiting machine with key
  3 down, one step leaves the program counter at \<open>0x202\<close>, not \<open>0x200\<close>, and 7 in
  register 1.
\<close>

theorem key_wait_counterexample:
  "keydown (waiting_machine (Some host_key3)) = Some host_key3 \<and>
   wait_key (waiting_machine (Some host_key3)) = 0 \<and>
   pc (waiting_machine (Some host_key3)) = 0x200 \<and>
   v (waiting_machine (Some host_key3)) 1 = 0 \<and>
   \<not> isl (step_machine 0 (waiting_machine (Some host_key3))) \<and>
   v (projr (step_machine 0 (waiting_machine (Some host_key3)))) 0 = 3 \<and>
   wait_key (projr (step_machine 0 (waiting_machine (Some host_key3)))) = - 1 \<and>
   pc (projr (step_machine 0 (waiting_machine (Some host_key3)))) = 0x202 \<and>
   v (projr (step_machine 0 (waiting_machine (Some host_key3)))) 1 = 7"
  by (simp add: waiting_machine_def host_key3_def boot_def load_rom_def init_machine_def
      step_machine_def fetch_execute_def fetch_def nibbles_def nibble_6_def set_v_def
      OPCODE_P_def OPCODE_X_def OPCODE_KK_def upt_rec)

section \<open>Stepping without a key capability\<close>

text \<open>
  Claim C10, as amended. When the \<open>keydown\<close> pointer is null, \<open>step_machine\<close> does not poll: it is
  the fetch, advance and dispatch alone, also when \<open>wait_key\<close> holds a register. Its
  result is the result of the same step of the running machine (\<open>wait_key = -1\<close>), with
  \<open>wait_key\<close> still holding the register it held before the step, unless the executed
  instruction is itself \<open>FX0A\<close>, which stores its own \<open>X\<close> there in both machines.
\<close>

theorem step_without_keydown:
  assumes "keydown cpu = None"
  shows "step_machine rnd cpu = fetch_execute rnd cpu \<and>
    step_machine rnd cpu =
      (case step_machine rnd (cpu\<lparr>wait_key := - 1\<rparr>) of
         Inl e \<Rightarrow> Inl e
       | Inr t \<Rightarrow> Inr (if wait_key t = - 1 then t\<lparr>wait_key := wait_key cpu\<rparr> else t))"
proof -
  let ?run = "cpu\<lparr>wait_key := - 1\<rparr>"
  have a: "step_machine rnd cpu = fetch_execute rnd cpu"
    using assms by (simp add: step_machine_def)
  have b: "step_machine rnd ?run = fetch_execute rnd ?run"
    by (simp add: step_machine_def)
  have c: "cpu = set_wait (wait_key cpu) ?run" by (simp add: set_wait_def)
  have d: "fetch ?run = fetch cpu" by (simp add: fetch_def)
  have "fetch_execute rnd cpu =
      (case fetch_execute rnd ?run of
         Inl e \<Rightarrow> Inl e
       | Inr t \<Rightarrow> Inr (if wait_key t = - 1 then t\<lparr>wait_key := wait_key cpu\<rparr> else t))"
  proof (cases "fetch cpu")
    case (Inl e)
    then show ?thesis by (simp add: fetch_execute_def d)
  next
    case f: (Inr opcode)
    have g: "fetch_execute rnd cpu =
        (if unat (OPCODE_P opcode) = 15 \<and> OPCODE_KK opcode = 0x0A then fetch_execute rnd ?run
         else map_sum id (set_wait (wait_key cpu)) (fetch_execute rnd ?run))"
      using fetch_execute_wait [of rnd "wait_key cpu" ?run] f d c by simp
    show ?thesis
    proof (cases "fetch_execute rnd ?run")
      case (Inl e')
      then show ?thesis using g by simp
    next
      case r: (Inr t)
      have w: "wait_key t = (if unat (OPCODE_P opcode) = 15 \<and> OPCODE_KK opcode = 0x0A
          then int (unat (OPCODE_X opcode)) else - 1)"
        using fetch_execute_wait_key [OF r] f d by simp
      show ?thesis
      proof (cases "unat (OPCODE_P opcode) = 15 \<and> OPCODE_KK opcode = 0x0A")
        case True
        then have "0 \<le> wait_key t" using w by simp
        then have "wait_key t \<noteq> - 1" by linarith
        then show ?thesis using g r True by simp
      next
        case False
        then have "wait_key t = - 1" using w by auto
        then show ?thesis using g r False by (simp add: set_wait_def)
      qed
    qed
  qed
  then show ?thesis using a b by simp
qed


text \<open>
  The theorem of claim C10 at the waiting machine without key capability: the step
  executes \<open>6107\<close> and \<open>wait_key\<close> is still 0.
\<close>

theorem step_without_keydown_witness:
  "keydown (waiting_machine None) = None \<and>
   wait_key (waiting_machine None) = 0 \<and>
   \<not> isl (step_machine 0 (waiting_machine None)) \<and>
   pc (projr (step_machine 0 (waiting_machine None))) = 0x202 \<and>
   v (projr (step_machine 0 (waiting_machine None))) 1 = 7 \<and>
   wait_key (projr (step_machine 0 (waiting_machine None))) = 0 \<and>
   step_machine 0 (waiting_machine None) = fetch_execute 0 (waiting_machine None)"
proof -
  have a: "keydown (waiting_machine None) = None"
    by (simp add: waiting_machine_def)
  have b: "fetch_execute 0 (waiting_machine None) =
      Inr (nibble_6 ((waiting_machine None)\<lparr>pc := 0x202\<rparr>) 0x6107)"
    by (simp add: waiting_machine_def boot_def load_rom_def init_machine_def
        fetch_execute_def fetch_def nibbles_def OPCODE_P_def)
  show ?thesis
    using a step_without_keydown [OF a, of 0]
    by (simp add: b nibble_6_def OPCODE_X_def OPCODE_KK_def)
      (simp add: waiting_machine_def)
qed

text \<open>
  Claim C10 as stated fails in its last part: the wait state does not always still
  record the register it recorded before the step. On a machine without key capability
  that waits for register 0, with \<open>F50A\<close> as the next instruction, the step executes
  \<open>F50A\<close> and \<open>wait_key\<close> is 5 afterwards, not 0.
\<close>

theorem step_without_keydown_counterexample:
  "keydown waiting_FX0A_machine = None \<and>
   wait_key waiting_FX0A_machine = 0 \<and>
   fetch waiting_FX0A_machine = Inr 0xF50A \<and>
   \<not> isl (step_machine 0 waiting_FX0A_machine) \<and>
   wait_key (projr (step_machine 0 waiting_FX0A_machine)) = 5 \<and>
   wait_key (projr (step_machine 0 waiting_FX0A_machine)) \<noteq> wait_key waiting_FX0A_machine"
  by (simp add: waiting_FX0A_machine_def boot_def load_rom_def init_machine_def
      step_machine_def fetch_execute_def fetch_def nibbles_def nibble_F_def Let_def
      OPCODE_P_def OPCODE_X_def OPCODE_KK_def)

section \<open>What the handlers leave unchanged\<close>

lemma steps_numeral:
  "steps rnd (numeral k) cpu =
     (case step_machine rnd cpu of
        Inl e \<Rightarrow> Inl e
      | Inr cpu1 \<Rightarrow> steps rnd (pred_numeral k) cpu1)"
  by (simp add: numeral_eq_Suc)

lemma draw_pixel_frame:
  "mem (draw_pixel x y j sprite cpu c) = mem cpu"
  "i_reg (draw_pixel x y j sprite cpu c) = i_reg cpu"
  "pc (draw_pixel x y j sprite cpu c) = pc cpu"
  "stack (draw_pixel x y j sprite cpu c) = stack cpu"
  "sp (draw_pixel x y j sprite cpu c) = sp cpu"
  by (simp_all add: draw_pixel_def set_v_def Let_def)

lemma foldl_draw_pixel_frame:
  "mem (foldl (draw_pixel x y j sprite) cpu cs) = mem cpu \<and>
   i_reg (foldl (draw_pixel x y j sprite) cpu cs) = i_reg cpu \<and>
   pc (foldl (draw_pixel x y j sprite) cpu cs) = pc cpu \<and>
   stack (foldl (draw_pixel x y j sprite) cpu cs) = stack cpu \<and>
   sp (foldl (draw_pixel x y j sprite) cpu cs) = sp cpu"
  by (induction cs arbitrary: cpu) (simp_all add: draw_pixel_frame)

lemma draw_row_frame:
  "mem (draw_row x y j sprite cpu) = mem cpu"
  "i_reg (draw_row x y j sprite cpu) = i_reg cpu"
  "pc (draw_row x y j sprite cpu) = pc cpu"
  "stack (draw_row x y j sprite cpu) = stack cpu"
  "sp (draw_row x y j sprite cpu) = sp cpu"
  by (simp_all add: draw_row_def foldl_draw_pixel_frame)

lemma draw_rows_frame:
  "draw_rows x y js cpu = Inr t \<Longrightarrow>
   mem t = mem cpu \<and> i_reg t = i_reg cpu \<and> pc t = pc cpu \<and> stack t = stack cpu \<and> sp t = sp cpu"
  by (induction js arbitrary: cpu) (auto simp add: draw_row_frame split: if_splits)

lemma draw_rows_ok:
  "(\<exists>t. draw_rows x y js cpu = Inr t) = (\<forall>j \<in> set js. unat (i_reg cpu) + j < 4096)"
  by (induction js arbitrary: cpu) (simp_all add: draw_row_frame)

lemma store_regs_frame:
  "store_regs regs cpu = Inr t \<Longrightarrow>
   i_reg t = i_reg cpu \<and> pc t = pc cpu \<and> stack t = stack cpu \<and> sp t = sp cpu \<and> v t = v cpu"
  by (induction regs arbitrary: cpu) (auto simp add: mem_write_def split: if_splits)

lemma store_regs_ok:
  "(\<exists>t. store_regs regs cpu = Inr t) = (\<forall>r \<in> set regs. unat (i_reg cpu) + r < 4096)"
  by (induction regs arbitrary: cpu) (simp_all add: mem_write_def)

lemma load_regs_frame:
  "load_regs regs cpu = Inr t \<Longrightarrow>
   i_reg t = i_reg cpu \<and> pc t = pc cpu \<and> stack t = stack cpu \<and> sp t = sp cpu \<and> mem t = mem cpu"
  by (induction regs arbitrary: cpu) (auto simp add: set_v_def split: if_splits)

lemma load_regs_ok:
  "(\<exists>t. load_regs regs cpu = Inr t) = (\<forall>r \<in> set regs. unat (i_reg cpu) + r < 4096)"
  by (induction regs arbitrary: cpu) (simp_all add: set_v_def)

lemma not_isl_iff: "(\<not> isl r) = (\<exists>t. r = Inr t)"
  by (cases r) simp_all


section \<open>Memory accesses through the address register\<close>

text \<open>
  Claim C5, as amended. The accesses through the address register are neither checked
  nor wrapped, and \<open>I\<close> can be any 16-bit value. The sprite fetch of \<open>DXYN\<close> stays inside
  the 4096 bytes of memory exactly when \<open>N = 0\<close> or \<open>I + N \<le> 4096\<close>; the three writes of
  \<open>FX33\<close> exactly when \<open>I + 2 < 4096\<close>; the transfers of \<open>FX55\<close> and \<open>FX65\<close> exactly when
  \<open>I + X < 4096\<close>. Otherwise an index leaves the memory.
\<close>

theorem address_accesses_in_bounds:
  "(\<not> isl (nibble_D cpu opcode)) =
     (OPCODE_N opcode = 0 \<or> unat (i_reg cpu) + unat (OPCODE_N opcode) \<le> 4096) \<and>
   (OPCODE_KK opcode = 0x33 \<longrightarrow>
     (\<not> isl (nibble_F cpu opcode)) = (unat (i_reg cpu) + 2 < 4096)) \<and>
   (OPCODE_KK opcode = 0x55 \<or> OPCODE_KK opcode = 0x65 \<longrightarrow>
     (\<not> isl (nibble_F cpu opcode)) = (unat (i_reg cpu) + unat (OPCODE_X opcode) < 4096))"
proof (intro conjI impI)
  have "(\<not> isl (nibble_D cpu opcode)) =
      (\<forall>j \<in> set [0..<unat (OPCODE_N opcode)]. unat (i_reg cpu) + j < 4096)"
    by (simp only: not_isl_iff nibble_D_def draw_rows_ok) (simp add: set_v_def)
  also have "\<dots> = (unat (OPCODE_N opcode) = 0 \<or> unat (i_reg cpu) + unat (OPCODE_N opcode) \<le> 4096)"
  proof (cases "unat (OPCODE_N opcode)")
    case 0
    then show ?thesis by simp
  next
    case (Suc n)
    then show ?thesis by auto
  qed
  finally show "(\<not> isl (nibble_D cpu opcode)) =
     (OPCODE_N opcode = 0 \<or> unat (i_reg cpu) + unat (OPCODE_N opcode) \<le> 4096)"
    by (simp add: unat_eq_0)
next
  assume "OPCODE_KK opcode = 0x33"
  then show "(\<not> isl (nibble_F cpu opcode)) = (unat (i_reg cpu) + 2 < 4096)"
    by (simp add: nibble_F_def Let_def mem_write_def)
next
  assume k: "OPCODE_KK opcode = 0x55 \<or> OPCODE_KK opcode = 0x65"
  let ?regs = "[0..<Suc (unat (OPCODE_X opcode))]"
  have e: "(\<forall>r \<in> set ?regs. unat (i_reg cpu) + r < 4096)
      = (unat (i_reg cpu) + unat (OPCODE_X opcode) < 4096)"
    by auto
  from k have "(\<exists>t. nibble_F cpu opcode = Inr t) = (\<forall>r \<in> set ?regs. unat (i_reg cpu) + r < 4096)"
  proof
    assume "OPCODE_KK opcode = 0x55"
    then have "nibble_F cpu opcode = store_regs ?regs cpu"
      by (simp add: nibble_F_def Let_def)
    then show ?thesis by (simp only: store_regs_ok)
  next
    assume "OPCODE_KK opcode = 0x65"
    then have "nibble_F cpu opcode = load_regs ?regs cpu"
      by (simp add: nibble_F_def Let_def)
    then show ?thesis by (simp only: load_regs_ok)
  qed
  then show "(\<not> isl (nibble_F cpu opcode)) = (unat (i_reg cpu) + unat (OPCODE_X opcode) < 4096)"
    by (simp only: not_isl_iff e)
qed

text \<open>
  The theorem of claim C5 on the initial machine (\<open>I = 0\<close>): \<open>D005\<close>, \<open>F033\<close>, \<open>F255\<close>
  and \<open>F265\<close> stay inside the memory.
\<close>

theorem address_accesses_in_bounds_witness:
  "OPCODE_KK 0xF033 = 0x33 \<and> OPCODE_KK 0xF255 = 0x55 \<and> OPCODE_KK 0xF265 = 0x65 \<and>
   \<not> isl (nibble_D (fst init_machine) 0xD005) \<and>
   \<not> isl (nibble_F (fst init_machine) 0xF033) \<and>
   \<not> isl (nibble_F (fst init_machine) 0xF255) \<and>
   \<not> isl (nibble_F (fst init_machine) 0xF265)"
proof -
  have k: "OPCODE_KK 0xF033 = 0x33" "OPCODE_KK 0xF255 = 0x55" "OPCODE_KK 0xF265 = 0x65"
    by (simp_all add: OPCODE_KK_def)
  have x: "unat (OPCODE_X 0xF255) = 2" "unat (OPCODE_X 0xF265) = 2" "unat (OPCODE_N 0xD005) = 5"
    by (simp_all add: OPCODE_X_def OPCODE_N_def)
  have i: "unat (i_reg (fst init_machine)) = 0" by (simp add: init_machine_def)
  show ?thesis
    using k address_accesses_in_bounds [of "fst init_machine" "0xD005"]
      address_accesses_in_bounds [of "fst init_machine" "0xF033"]
      address_accesses_in_bounds [of "fst init_machine" "0xF255"]
      address_accesses_in_bounds [of "fst init_machine" "0xF265"]
    by (simp add: x i)
qed

text \<open>
  Claim C5 as stated fails on a reachable machine: after \<open>AFFF\<close> the address register
  holds \<open>0xFFF\<close>, and \<open>D002\<close> then fetches the sprite bytes \<open>I\<close> and \<open>I + 1 = 0x1000\<close>,
  the second one outside the memory.
\<close>

theorem address_accesses_counterexample:
  "\<not> isl (steps 0 1 (boot [0xAF, 0xFF, 0xD0, 0x02])) \<and>
   i_reg (projr (steps 0 1 (boot [0xAF, 0xFF, 0xD0, 0x02]))) = 0xFFF \<and>
   fetch (projr (steps 0 1 (boot [0xAF, 0xFF, 0xD0, 0x02]))) = Inr 0xD002 \<and>
   steps 0 2 (boot [0xAF, 0xFF, 0xD0, 0x02]) = Inl OutOfBounds"
  by (simp add: steps_numeral boot_def load_rom_def init_machine_def
      step_machine_def fetch_execute_def fetch_def nibbles_def nibble_A_def nibble_D_def
      set_v_def draw_row_def draw_pixel_def Let_def upt_rec
      OPCODE_P_def OPCODE_NNN_def OPCODE_N_def OPCODE_X_def OPCODE_Y_def)

section \<open>The range of the address register\<close>

lemma nibble_F_i_reg:
  assumes "nibble_F cpu opcode = Inr t"
  shows "i_reg t =
    (if OPCODE_KK opcode = 0x1E then i_reg cpu + ucast (v cpu (unat (OPCODE_X opcode)))
     else if OPCODE_KK opcode = 0x29
     then 0x50 + ucast (v cpu (unat (OPCODE_X opcode)) AND 0xF) * 5
     else i_reg cpu)"
  using assms
  by (auto simp add: nibble_F_def Let_def set_v_def mem_write_def
      dest: store_regs_frame load_regs_frame split: if_splits)

lemma nibble_pure_i_reg:
  "i_reg (nibble_1 cpu opcode) = i_reg cpu"
  "i_reg (nibble_3 cpu opcode) = i_reg cpu"
  "i_reg (nibble_4 cpu opcode) = i_reg cpu"
  "i_reg (nibble_5 cpu opcode) = i_reg cpu"
  "i_reg (nibble_6 cpu opcode) = i_reg cpu"
  "i_reg (nibble_7 cpu opcode) = i_reg cpu"
  "i_reg (nibble_8 cpu opcode) = i_reg cpu"
  "i_reg (nibble_9 cpu opcode) = i_reg cpu"
  "i_reg (nibble_B cpu opcode) = i_reg cpu"
  "i_reg (nibble_C rnd cpu opcode) = i_reg cpu"
  "i_reg (nibble_E cpu opcode) = i_reg cpu"
  by (simp_all add: nibble_1_def nibble_3_def nibble_4_def nibble_5_def
      nibble_6_def nibble_7_def nibble_8_def nibble_9_def nibble_B_def nibble_C_def
      nibble_E_def skip_if_def set_v_def Let_def split: option.split)

lemma nibble_0_i_reg: "nibble_0 cpu opcode = Inr t \<Longrightarrow> i_reg t = i_reg cpu"
  by (auto simp add: nibble_0_def split: if_splits)

lemma nibble_2_i_reg: "nibble_2 cpu opcode = Inr t \<Longrightarrow> i_reg t = i_reg cpu"
  by (auto simp add: nibble_2_def split: if_splits)

lemma nibble_D_i_reg: "nibble_D cpu opcode = Inr t \<Longrightarrow> i_reg t = i_reg cpu"
  by (auto simp add: nibble_D_def set_v_def dest: draw_rows_frame)

lemma nibbles_i_reg:
  assumes "nibbles p rnd cpu opcode = Inr t"
  shows "i_reg t =
    (if p = 10 then OPCODE_NNN opcode
     else if p = 15 \<and> OPCODE_KK opcode = 0x1E
     then i_reg cpu + ucast (v cpu (unat (OPCODE_X opcode)))
     else if p = 15 \<and> OPCODE_KK opcode = 0x29
     then 0x50 + ucast (v cpu (unat (OPCODE_X opcode)) AND 0xF) * 5
     else i_reg cpu)"
proof -
  consider "p = 0" | "p = 2" | "p = 13" | "p = 15" | "p = 10" | "p \<notin> {0, 2, 10, 13, 15}" by auto
  then show ?thesis
  proof cases
    case 1 then show ?thesis using assms by (simp add: nibbles_def nibble_0_i_reg)
  next
    case 2 then show ?thesis using assms by (simp add: nibbles_def nibble_2_i_reg)
  next
    case 3 then show ?thesis using assms by (simp add: nibbles_def nibble_D_i_reg)
  next
    case 4 then show ?thesis using assms nibble_F_i_reg [of cpu opcode t] by (simp add: nibbles_def)
  next
    case 5 then show ?thesis using assms by (auto simp add: nibbles_def nibble_A_def)
  next
    case 6 then show ?thesis using assms
      by (auto simp add: nibbles_def nibble_pure_i_reg split: if_splits)
  qed
qed

lemma unat_ucast_byte: "unat (ucast (b :: byte) :: word16) = unat b"
  using byte_bound [of b] by (simp add: unsigned_ucast_eq take_bit_eq_mod)

lemma glyph_address: "0x50 + ucast ((b :: byte) AND 0xF) * 5 \<le> (0xFFF :: word16)"
proof -
  have "unat (b AND 0xF) \<le> unat (0xF :: byte)"
    by (rule word_and_le1 [THEN word_le_nat_alt [THEN iffD1]])
  then have n: "unat (b AND 0xF) \<le> 15" by simp
  have "unat (ucast (b AND 0xF) :: word16) = unat (b AND 0xF)"
    by (rule unat_ucast_byte)
  then have "unat (0x50 + (ucast (b AND 0xF) :: word16) * 5) = 80 + unat (b AND 0xF) * 5"
    using n by (simp add: unat_word_ariths)
  then show ?thesis using n by (simp add: word_le_nat_alt)
qed

lemma add_register_address:
  assumes "(w :: word16) \<le> 0xFFF"
  shows "unat (w + ucast (b :: byte)) = unat w + unat b"
proof -
  have "unat w \<le> 4095" using assms by (simp add: word_le_nat_alt)
  moreover have "unat (ucast b :: word16) = unat b" by (rule unat_ucast_byte)
  ultimately show ?thesis using byte_bound [of b] by (simp add: unat_word_ariths)
qed


text \<open>
  Claim C4, as amended. Starting from \<open>I \<le> 0xFFF\<close>, every opcode other than \<open>FX1E\<close>
  leaves \<open>I \<le> 0xFFF\<close> (\<open>ANNN\<close> and \<open>FX29\<close> store a value in that range, the others do
  not write \<open>I\<close>). \<open>FX1E\<close> stores \<open>I + registers[X]\<close> without a mask, a value up to
  \<open>0x10FE\<close>, above \<open>0xFFF\<close> whenever the sum is.
\<close>

theorem address_register_range:
  assumes "i_reg cpu \<le> 0xFFF" and "nibbles (unat (OPCODE_P opcode)) rnd cpu opcode = Inr t"
  shows "(\<not> (OPCODE_P opcode = 0xF \<and> OPCODE_KK opcode = 0x1E) \<longrightarrow> i_reg t \<le> 0xFFF) \<and>
    (OPCODE_P opcode = 0xF \<and> OPCODE_KK opcode = 0x1E \<longrightarrow>
       unat (i_reg t) = unat (i_reg cpu) + unat (v cpu (unat (OPCODE_X opcode))))"
proof -
  have p: "(unat (OPCODE_P opcode) = 15) = (OPCODE_P opcode = 0xF)"
    by (simp add: word_unat_eq_iff)
  show ?thesis
    using nibbles_i_reg [OF assms(2)] assms(1)
    by (auto simp add: p OPCODE_NNN_le glyph_address add_register_address)
qed

text \<open>
  The theorem of claim C4 on the initial machine (\<open>I = 0\<close>) at \<open>A123\<close> and at \<open>F01E\<close>.
\<close>

theorem address_register_range_witness:
  "i_reg (fst init_machine) \<le> 0xFFF \<and>
   nibbles (unat (OPCODE_P 0xA123)) 0 (fst init_machine) 0xA123 =
     Inr (nibble_A (fst init_machine) 0xA123) \<and>
   i_reg (nibble_A (fst init_machine) 0xA123) \<le> 0xFFF \<and>
   OPCODE_P 0xF01E = 0xF \<and> OPCODE_KK 0xF01E = 0x1E \<and>
   nibbles (unat (OPCODE_P 0xF01E)) 0 (fst init_machine) 0xF01E =
     Inr ((fst init_machine)\<lparr>i_reg := 0\<rparr>) \<and>
   unat (i_reg ((fst init_machine)\<lparr>i_reg := 0\<rparr>)) = 0"
proof -
  have a: "i_reg (fst init_machine) \<le> 0xFFF" by (simp add: init_machine_def)
  have b: "nibbles (unat (OPCODE_P 0xA123)) 0 (fst init_machine) 0xA123 =
      Inr (nibble_A (fst init_machine) 0xA123)"
    by (simp add: nibbles_def OPCODE_P_def)
  have c: "nibbles (unat (OPCODE_P 0xF01E)) 0 (fst init_machine) 0xF01E =
      Inr ((fst init_machine)\<lparr>i_reg := 0\<rparr>)"
    by (simp add: nibbles_def nibble_F_def OPCODE_P_def OPCODE_KK_def OPCODE_X_def
        init_machine_def)
  have d: "OPCODE_P 0xF01E = 0xF" "OPCODE_KK 0xF01E = 0x1E" "OPCODE_P 0xA123 \<noteq> 0xF"
    by (simp_all add: OPCODE_P_def OPCODE_KK_def)
  show ?thesis
    using a b c d address_register_range [OF a b] address_register_range [OF a c]
    by simp
qed

text \<open>
  Claim C4 as stated fails on a reachable machine: the program \<open>AFFF 6001 F01E\<close> sets
  \<open>I\<close> to \<open>0xFFF\<close>, register 0 to 1, and adds register 0 to \<open>I\<close>, which then holds
  \<open>0x1000\<close>.
\<close>

theorem address_register_counterexample:
  "\<not> isl (steps 0 2 (boot [0xAF, 0xFF, 0x60, 0x01, 0xF0, 0x1E])) \<and>
   i_reg (projr (steps 0 2 (boot [0xAF, 0xFF, 0x60, 0x01, 0xF0, 0x1E]))) \<le> 0xFFF \<and>
   fetch (projr (steps 0 2 (boot [0xAF, 0xFF, 0x60, 0x01, 0xF0, 0x1E]))) = Inr 0xF01E \<and>
   \<not> isl (steps 0 3 (boot [0xAF, 0xFF, 0x60, 0x01, 0xF0, 0x1E])) \<and>
   i_reg (projr (steps 0 3 (boot [0xAF, 0xFF, 0x60, 0x01, 0xF0, 0x1E]))) = 0x1000 \<and>
   \<not> i_reg (projr (steps 0 3 (boot [0xAF, 0xFF, 0x60, 0x01, 0xF0, 0x1E]))) \<le> 0xFFF"
  by (simp add: steps_numeral boot_def load_rom_def init_machine_def
      step_machine_def fetch_execute_def fetch_def nibbles_def nibble_A_def nibble_6_def
      nibble_F_def Let_def OPCODE_P_def OPCODE_NNN_def OPCODE_KK_def OPCODE_X_def)

section \<open>Program counter and stack pointer stay in range\<close>

lemma machine_inv_iff:
  "machine_inv cpu =
    (pc cpu \<le> 0xFFF \<and> 0 \<le> sp cpu \<and> sp cpu \<le> 16 \<and> (\<forall>k < nat (sp cpu). stack cpu k \<le> 0xFFF))"
  by (auto simp add: machine_inv_def pc_sp_in_range_def stack_in_range_def list_all_iff)

lemma machine_inv_frame:
  assumes "pc t = pc cpu" and "sp t = sp cpu" and "stack t = stack cpu"
  shows "machine_inv t = machine_inv cpu"
  by (simp add: machine_inv_iff assms)

lemma machine_inv_jump:
  assumes "machine_inv cpu" and "sp t = sp cpu" and "stack t = stack cpu" and "pc t \<le> 0xFFF"
  shows "machine_inv t"
  using assms by (simp add: machine_inv_iff)

lemma masked: "(w :: word16) AND 0xFFF \<le> 0xFFF"
  by (rule word_and_le1)

lemma nibble_0_inv:
  assumes "machine_inv cpu" and "nibble_0 cpu opcode = Inr t"
  shows "machine_inv t"
proof (cases "opcode = 0x00ee \<and> sp cpu > 0")
  case True
  then have t: "t = cpu\<lparr>sp := sp cpu - 1, pc := stack cpu (nat (sp cpu - 1))\<rparr>"
    using assms(2) by (auto simp add: nibble_0_def split: if_splits)
  have "nat (sp cpu - 1) < nat (sp cpu)" using True by simp
  then have "stack cpu (nat (sp cpu - 1)) \<le> 0xFFF"
    using assms(1) by (simp add: machine_inv_iff)
  then show ?thesis using assms(1) True by (simp add: machine_inv_iff t)
next
  case False
  then have "pc t = pc cpu \<and> sp t = sp cpu \<and> stack t = stack cpu"
    using assms(2) by (auto simp add: nibble_0_def split: if_splits)
  then show ?thesis using assms(1) machine_inv_frame [of t cpu] by simp
qed

lemma nibble_2_inv:
  assumes "machine_inv cpu" and "nibble_2 cpu opcode = Inr t"
  shows "machine_inv t"
proof (cases "sp cpu < 16")
  case True
  then have t: "t = cpu\<lparr>stack := (stack cpu)(nat (sp cpu) := pc cpu), sp := sp cpu + 1,
      pc := OPCODE_NNN opcode\<rparr>"
    using assms(2) by (auto simp add: nibble_2_def split: if_splits)
  show ?thesis using assms(1) True
    by (auto simp add: machine_inv_iff t OPCODE_NNN_le nat_add_distrib less_Suc_eq)
next
  case False
  then have "t = cpu" using assms(2) by (simp add: nibble_2_def)
  then show ?thesis using assms(1) by simp
qed

lemma nibble_D_inv:
  assumes "machine_inv cpu" and "nibble_D cpu opcode = Inr t"
  shows "machine_inv t"
proof -
  have "pc t = pc cpu \<and> sp t = sp cpu \<and> stack t = stack cpu"
    using draw_rows_frame [OF assms(2) [unfolded nibble_D_def]] by (simp add: set_v_def)
  then show ?thesis using assms(1) machine_inv_frame [of t cpu] by simp
qed

lemma nibble_F_inv:
  assumes "machine_inv cpu" and "nibble_F cpu opcode = Inr t"
  shows "machine_inv t"
proof -
  have "pc t = pc cpu \<and> sp t = sp cpu \<and> stack t = stack cpu"
    using assms(2)
    by (auto simp add: nibble_F_def Let_def set_v_def mem_write_def
      dest: store_regs_frame load_regs_frame split: if_splits)
  then show ?thesis using assms(1) machine_inv_frame [of t cpu] by simp
qed

lemma nibble_pure_inv:
  assumes "machine_inv cpu"
  shows "machine_inv (nibble_1 cpu opcode)" "machine_inv (nibble_3 cpu opcode)"
    "machine_inv (nibble_4 cpu opcode)" "machine_inv (nibble_5 cpu opcode)"
    "machine_inv (nibble_6 cpu opcode)" "machine_inv (nibble_7 cpu opcode)"
    "machine_inv (nibble_8 cpu opcode)" "machine_inv (nibble_9 cpu opcode)"
    "machine_inv (nibble_A cpu opcode)" "machine_inv (nibble_B cpu opcode)"
    "machine_inv (nibble_C rnd cpu opcode)" "machine_inv (nibble_E cpu opcode)"
  using assms
  by (simp_all add: machine_inv_iff nibble_1_def nibble_3_def nibble_4_def nibble_5_def
      nibble_6_def nibble_7_def nibble_8_def nibble_9_def nibble_A_def nibble_B_def nibble_C_def
      nibble_E_def skip_if_def set_v_def Let_def OPCODE_NNN_le masked split: option.split)

lemma nibbles_inv:
  assumes "machine_inv cpu" and "nibbles p rnd cpu opcode = Inr t"
  shows "machine_inv t"
proof -
  consider "p = 0" | "p = 2" | "p = 13" | "p = 15" | "p \<notin> {0, 2, 13, 15}" by auto
  then show ?thesis
  proof cases
    case 1 then show ?thesis using assms by (simp add: nibbles_def nibble_0_inv)
  next
    case 2 then show ?thesis using assms by (simp add: nibbles_def nibble_2_inv)
  next
    case 3 then show ?thesis using assms by (simp add: nibbles_def nibble_D_inv)
  next
    case 4 then show ?thesis using assms by (simp add: nibbles_def nibble_F_inv)
  next
    case 5 then show ?thesis using assms
      by (auto simp add: nibbles_def nibble_pure_inv split: if_splits)
  qed
qed

lemma fetch_execute_inv:
  assumes "machine_inv cpu" and "fetch_execute rnd cpu = Inr t"
  shows "machine_inv t"
proof (cases "fetch cpu")
  case (Inl e)
  then show ?thesis using assms(2) by (simp add: fetch_execute_def)
next
  case (Inr opcode)
  have a: "machine_inv (cpu\<lparr>pc := (pc cpu + 2) AND 0xFFF\<rparr>)"
    by (rule machine_inv_jump [OF assms(1)]) (simp_all add: masked)
  have "nibbles (unat (OPCODE_P opcode)) rnd (cpu\<lparr>pc := (pc cpu + 2) AND 0xFFF\<rparr>) opcode = Inr t"
    using assms(2) Inr by (simp add: fetch_execute_def)
  with a show ?thesis by (rule nibbles_inv)
qed

lemma poll_keys_frame:
  "poll_keys down ks cpu = Inr t \<Longrightarrow> pc t = pc cpu \<and> sp t = sp cpu \<and> stack t = stack cpu"
  by (induction ks) (auto simp add: set_v_def split: if_splits)

lemma step_machine_inv:
  assumes "machine_inv cpu" and "step_machine rnd cpu = Inr t"
  shows "machine_inv t"
proof (cases "wait_key cpu \<noteq> - 1 \<and> keydown cpu \<noteq> None")
  case False
  then have "fetch_execute rnd cpu = Inr t"
    using assms(2) by (auto simp add: step_machine_def)
  then show ?thesis using assms(1) by (rule fetch_execute_inv [rotated])
next
  case True
  then obtain cpu1 where p: "poll_keys (the (keydown cpu)) [0..<16] cpu = Inr cpu1"
    and r: "(if wait_key cpu1 \<noteq> - 1 then Inr cpu1 else fetch_execute rnd cpu1) = Inr t"
    using assms(2) by (auto simp add: step_machine_def split: sum.splits)
  have "machine_inv cpu1"
    using poll_keys_frame [OF p] assms(1) machine_inv_frame [of cpu1 cpu] by simp
  then show ?thesis using r fetch_execute_inv [of cpu1 rnd t] by (auto split: if_splits)
qed

lemma tick_frame:
  "pc (fst (tick cpu out)) = pc cpu \<and> sp (fst (tick cpu out)) = sp cpu \<and>
   stack (fst (tick cpu out)) = stack cpu"
  by (simp add: tick_def Let_def)

lemma update_time_loop_frame:
  "pc (fst (update_time_loop cpu g out)) = pc cpu \<and>
   sp (fst (update_time_loop cpu g out)) = sp cpu \<and>
   stack (fst (update_time_loop cpu g out)) = stack cpu"
proof (induction cpu g out rule: update_time_loop.induct)
  case (1 cpu g out)
  show ?case
  proof (cases "g > 1000 div 60")
    case True
    then show ?thesis
      using "1.IH" by (subst (1 2 3) update_time_loop.simps) (simp add: tick_frame)
  next
    case False
    then show ?thesis by (subst (1 2 3) update_time_loop.simps) simp
  qed
qed


text \<open>
  Claim C9, as amended. If the program counter is at most \<open>0xFFF\<close>, the stack pointer
  is between 0 and 16, and every saved program counter below the stack pointer is at
  most \<open>0xFFF\<close>, then the same three properties hold of the machine a call of
  \<open>step_machine\<close> returns, whatever opcode it executes (a call that leaves an array of
  the machine returns no machine), and of the machine \<open>update_time\<close> returns.
\<close>

theorem invariant_preserved:
  assumes "pc_sp_in_range cpu" and "stack_in_range cpu"
  shows "(\<forall>t. step_machine rnd cpu = Inr t \<longrightarrow> pc_sp_in_range t \<and> stack_in_range t) \<and>
    pc_sp_in_range (fst (update_time (cpu, g) delta)) \<and>
    stack_in_range (fst (update_time (cpu, g) delta))"
proof -
  have i: "machine_inv cpu" using assms by (simp add: machine_inv_def)
  have "machine_inv (fst (update_time (cpu, g) delta))"
    using i update_time_loop_frame [of cpu "g + delta" "[]"]
      machine_inv_frame [of "fst (update_time (cpu, g) delta)" cpu]
    by (simp add: update_time_def)
  then show ?thesis
    using step_machine_inv [OF i] by (simp add: machine_inv_def)
qed


text \<open>
  The theorem of claim C9 at the program \<open>2234\<close> (call \<open>0x234\<close>) on the initial
  machine: after the step the stack pointer is 1 and the ranges hold; they also hold
  after 20 ms of timer updates.
\<close>

theorem invariant_preserved_witness:
  "pc_sp_in_range (boot [0x22, 0x34]) \<and> stack_in_range (boot [0x22, 0x34]) \<and>
   \<not> isl (step_machine 0 (boot [0x22, 0x34])) \<and>
   sp (projr (step_machine 0 (boot [0x22, 0x34]))) = 1 \<and>
   pc_sp_in_range (projr (step_machine 0 (boot [0x22, 0x34]))) \<and>
   stack_in_range (projr (step_machine 0 (boot [0x22, 0x34]))) \<and>
   pc_sp_in_range (fst (update_time (boot [0x22, 0x34], 0) 20)) \<and>
   stack_in_range (fst (update_time (boot [0x22, 0x34], 0) 20))"
proof -
  have a: "pc_sp_in_range (boot [0x22, 0x34])"
    by (simp add: pc_sp_in_range_def boot_def load_rom_def init_machine_def)
  have b: "stack_in_range (boot [0x22, 0x34])"
    by (simp add: stack_in_range_def boot_def load_rom_def init_machine_def)
  have c: "step_machine 0 (boot [0x22, 0x34]) =
      Inr (projr (step_machine 0 (boot [0x22, 0x34]))) \<and>
      sp (projr (step_machine 0 (boot [0x22, 0x34]))) = 1"
    by (simp add: boot_def load_rom_def init_machine_def step_machine_def fetch_execute_def
        fetch_def nibbles_def nibble_2_def OPCODE_P_def)
  then have d: "\<not> isl (step_machine 0 (boot [0x22, 0x34]))"
    by (metis sum.disc(2))
  show ?thesis
    using a b c d invariant_preserved [OF a b, of 0 0 20] by blast
qed

text \<open>
  Claim C9 as stated fails: the two ranges it names are not preserved on their own.
  A machine with program counter \<open>0x200\<close> and stack pointer 1, whose saved program
  counter is \<open>0xFFFF\<close>, executes \<open>00EE\<close> and has program counter \<open>0xFFFF\<close>.
\<close>

theorem invariant_counterexample:
  "pc_sp_in_range bad_stack_machine \<and> wait_key bad_stack_machine = - 1 \<and>
   \<not> isl (step_machine 0 bad_stack_machine) \<and>
   pc (projr (step_machine 0 bad_stack_machine)) = 0xFFFF \<and>
   \<not> pc_sp_in_range (projr (step_machine 0 bad_stack_machine))"
  by (simp add: bad_stack_machine_def pc_sp_in_range_def boot_def load_rom_def init_machine_def
      step_machine_def fetch_execute_def fetch_def nibbles_def nibble_0_def OPCODE_P_def)

section \<open>The timers\<close>

text \<open>
  Claim C3 at 1000 ms from a zero counter, with 100 in the delay timer and 5 in the
  sound timer: \<open>update_time\<close> performs 62 ticks, not 60. The delay timer goes from 100 to
  38, the sound timer stops at 0, and 8 ms stay in the counter. The period is
  \<open>1000 / 60 = 16\<close> ms in integer arithmetic, and the loop runs while the counter is
  greater than the period: a counter of exactly 16 ms performs no tick.
\<close>

theorem update_time_1000ms:
  "dt timer_machine = 100 \<and> st timer_machine = 5 \<and>
   dt (fst (update_time (timer_machine, 0) 1000)) = 38 \<and>
   st (fst (update_time (timer_machine, 0) 1000)) = 0 \<and>
   fst (snd (update_time (timer_machine, 0) 1000)) = 8 \<and>
   dt (fst (update_time (timer_machine, 0) 16)) = 100 \<and>
   fst (snd (update_time (timer_machine, 0) 16)) = 16"
  by (simp add: update_time_def update_time_loop.simps timer_machine_def init_machine_def
      tick_def Let_def)

section \<open>Drawing a sprite twice\<close>

subsection \<open>The draw instruction as a list of pixel operations\<close>

lemma plot_append: "plot (ops1 @ ops2) fs = plot ops2 (plot ops1 fs)"
  by (induction ops1 arbitrary: fs) simp_all

lemma put_fs_sel:
  "mem (put_fs cpu fs) = mem cpu" "i_reg (put_fs cpu fs) = i_reg cpu"
  "r \<noteq> 15 \<Longrightarrow> v (put_fs cpu fs) r = v cpu r"
  "get_fs (put_fs cpu fs) = fs"
  by (simp_all add: put_fs_def get_fs_def)

lemma put_fs_put_fs: "put_fs (put_fs cpu fs) fs' = put_fs cpu fs'"
  by (simp add: put_fs_def)

lemma put_fs_get_fs: "put_fs cpu (get_fs cpu) = cpu"
  by (simp add: put_fs_def get_fs_def)

lemma draw_pixel_plot:
  "draw_pixel x y j sprite cpu c =
     put_fs cpu (plot [(pixel_pos (v cpu x) (v cpu y) j c, pixel_bit sprite c)] (get_fs cpu))"
  by (simp add: draw_pixel_def put_fs_def get_fs_def set_v_def Let_def pixel_pos_def pixel_bit_def)

lemma foldl_draw_pixel_plot:
  assumes "x \<noteq> 15" and "y \<noteq> 15"
  shows "foldl (draw_pixel x y j sprite) cpu cs =
     put_fs cpu (plot (map (\<lambda>c. (pixel_pos (v cpu x) (v cpu y) j c, pixel_bit sprite c)) cs)
       (get_fs cpu))"
proof (induction cs arbitrary: cpu)
  case Nil
  show ?case by (simp add: put_fs_get_fs)
next
  case (Cons c cs)
  let ?p = "draw_pixel x y j sprite cpu c"
  have p: "?p = put_fs cpu
      (plot [(pixel_pos (v cpu x) (v cpu y) j c, pixel_bit sprite c)] (get_fs cpu))"
    by (rule draw_pixel_plot)
  have "foldl (draw_pixel x y j sprite) cpu (c # cs) = foldl (draw_pixel x y j sprite) ?p cs"
    by simp
  also have "\<dots> = put_fs ?p
      (plot (map (\<lambda>c. (pixel_pos (v ?p x) (v ?p y) j c, pixel_bit sprite c)) cs) (get_fs ?p))"
    by (rule Cons.IH)
  also have "\<dots> = put_fs cpu
      (plot (map (\<lambda>c. (pixel_pos (v cpu x) (v cpu y) j c, pixel_bit sprite c)) (c # cs))
        (get_fs cpu))"
    by (simp add: p put_fs_sel put_fs_put_fs assms)
  finally show ?case .
qed

lemma sprite_ops_Cons:
  "sprite_ops m i a b (j # js) =
     map (\<lambda>c. (pixel_pos a b j c, pixel_bit (m (i + j)) c)) [0..<8] @ sprite_ops m i a b js"
  by (simp add: sprite_ops_def comp_def)

lemma draw_rows_plot:
  assumes "x \<noteq> 15" and "y \<noteq> 15"
  shows "\<forall>j \<in> set js. unat (i_reg cpu) + j < 4096 \<Longrightarrow>
    draw_rows x y js cpu =
      Inr (put_fs cpu (plot (sprite_ops (mem cpu) (unat (i_reg cpu)) (v cpu x) (v cpu y) js)
        (get_fs cpu)))"
proof (induction js arbitrary: cpu)
  case Nil
  show ?case by (simp add: sprite_ops_def put_fs_get_fs)
next
  case (Cons j js)
  let ?row = "draw_row x y j (mem cpu (unat (i_reg cpu) + j)) cpu"
  have r: "?row = put_fs cpu (plot (map (\<lambda>c. (pixel_pos (v cpu x) (v cpu y) j c,
      pixel_bit (mem cpu (unat (i_reg cpu) + j)) c)) [0..<8]) (get_fs cpu))"
    unfolding draw_row_def by (rule foldl_draw_pixel_plot [OF assms])
  have "draw_rows x y (j # js) cpu = draw_rows x y js ?row"
    using Cons.prems by simp
  also have "\<dots> = Inr (put_fs ?row (plot (sprite_ops (mem ?row) (unat (i_reg ?row))
      (v ?row x) (v ?row y) js) (get_fs ?row)))"
    using Cons.prems by (intro Cons.IH) (simp add: draw_row_frame)
  also have "\<dots> = Inr (put_fs cpu (plot (sprite_ops (mem cpu) (unat (i_reg cpu))
      (v cpu x) (v cpu y) (j # js)) (get_fs cpu)))"
    by (simp add: r put_fs_sel put_fs_put_fs assms sprite_ops_Cons plot_append)
  finally show ?case .
qed

lemma nibble_D_plot:
  assumes "unat (OPCODE_X opcode) \<noteq> 15" and "unat (OPCODE_Y opcode) \<noteq> 15"
    and "\<forall>j \<in> set [0..<unat (OPCODE_N opcode)]. unat (i_reg cpu) + j < 4096"
  shows "nibble_D cpu opcode =
    Inr (put_fs cpu (plot (sprite_ops (mem cpu) (unat (i_reg cpu))
        (v cpu (unat (OPCODE_X opcode))) (v cpu (unat (OPCODE_Y opcode)))
        [0..<unat (OPCODE_N opcode)]) (0, screen cpu)))"
proof -
  have s: "set_v cpu 15 0 = put_fs cpu (0, screen cpu)"
    by (simp add: set_v_def put_fs_def)
  have "\<forall>j \<in> set [0..<unat (OPCODE_N opcode)]. unat (i_reg (put_fs cpu (0, screen cpu))) + j < 4096"
    using assms(3) by (simp add: put_fs_sel)
  from draw_rows_plot [OF assms(1,2) this]
  show ?thesis
    by (simp add: nibble_D_def s put_fs_sel put_fs_put_fs assms(1,2))
qed

subsection \<open>Flag and screen after a list of pixel operations\<close>

lemma snd_plot: "snd (plot ops fs) = (\<lambda>p. snd fs p XOR xmask ops p)"
proof (induction ops arbitrary: fs)
  case Nil
  show ?case by simp
next
  case (Cons op ops)
  show ?case by (auto simp add: Cons.IH fun_eq_iff xor.assoc)
qed

lemma plot_twice_screen: "snd (plot ops (f2, snd (plot ops (f1, s)))) = s"
  by (simp add: snd_plot fun_eq_iff xor.assoc)

lemma and_pixel:
  assumes "b = 0 \<or> b = (1 :: byte)"
  shows "w AND b = (if b = 1 \<and> odd w then 1 else 0)"
  using assms by (auto simp add: and_one_eq mod_2_eq_odd)

lemma xmask_notin: "p \<notin> fst ` set ops \<Longrightarrow> xmask ops p = 0"
  by (induction ops) auto

lemma xmask_distinct:
  "distinct (map fst ops) \<Longrightarrow> (p, b) \<in> set ops \<Longrightarrow> xmask ops p = b"
proof (induction ops)
  case Nil
  then show ?case by simp
next
  case (Cons op ops)
  show ?case
  proof (cases "op = (p, b)")
    case True
    then have "p \<notin> fst ` set ops" using Cons.prems(1) by simp
    then show ?thesis using True by (simp add: xmask_notin)
  next
    case False
    then have m: "(p, b) \<in> set ops" using Cons.prems(2) by simp
    then have "p \<in> fst ` set ops" by force
    then have "fst op \<noteq> p" using Cons.prems(1) by auto
    then show ?thesis using Cons.IH m Cons.prems(1) by simp
  qed
qed

lemma fst_plot:
  assumes "distinct (map fst ops)" and "\<forall>op \<in> set ops. snd op = 0 \<or> snd op = 1"
  shows "fst (plot ops (f, s)) =
    f OR (if \<exists>op \<in> set ops. snd op = 1 \<and> odd (s (fst op)) then 1 else 0)"
  using assms
proof (induction ops arbitrary: f s)
  case Nil
  show ?case by simp
next
  case (Cons op ops)
  let ?s = "s(fst op := s (fst op) XOR snd op)"
  have same: "?s (fst op') = s (fst op')" if "op' \<in> set ops" for op'
  proof -
    have "fst op' \<in> fst ` set ops" using that by simp
    moreover have "fst op \<notin> fst ` set ops" using Cons.prems(1) by simp
    ultimately have "fst op' \<noteq> fst op" by metis
    then show ?thesis by simp
  qed
  have b: "snd op = 0 \<or> snd op = 1" using Cons.prems(2) by simp
  have "fst (plot (op # ops) (f, s)) =
      (f OR (s (fst op) AND snd op)) OR
      (if \<exists>op' \<in> set ops. snd op' = 1 \<and> odd (?s (fst op')) then 1 else 0)"
    using Cons.prems by (simp add: Cons.IH)
  also have "(\<exists>op' \<in> set ops. snd op' = 1 \<and> odd (?s (fst op')))
      = (\<exists>op' \<in> set ops. snd op' = 1 \<and> odd (s (fst op')))"
    using same by (intro bex_cong) simp_all
  finally show ?case
    by (auto simp add: and_pixel [OF b] or.assoc)
qed

subsection \<open>The pixel operations of a sprite touch distinct cells\<close>

lemma and_63_nat: "(n :: nat) AND 63 = n mod 64"
proof -
  have "(63 :: nat) = mask 6" by (simp add: mask_eq_exp_minus_1)
  then have "n AND 63 = take_bit 6 n" by (simp add: take_bit_eq_mask)
  then show ?thesis by (simp add: take_bit_eq_mod)
qed

lemma and_31_nat: "(n :: nat) AND 31 = n mod 32"
proof -
  have "(31 :: nat) = mask 5" by (simp add: mask_eq_exp_minus_1)
  then have "n AND 31 = take_bit 5 n" by (simp add: take_bit_eq_mask)
  then show ?thesis by (simp add: take_bit_eq_mod)
qed

lemma mod_shift_inj:
  assumes "(k + j) mod q = (k + j') mod q" and "j < q" and "j' < (q :: nat)"
  shows "j = j'"
proof -
  have *: "j1 = j2" if "(k + j1) mod q = (k + j2) mod q" and "j2 \<le> j1" and "j1 < q"
    for j1 j2
  proof -
    have "q dvd (k + j1) - (k + j2)"
      using that mod_eq_dvd_iff_nat [of "k + j2" "k + j1" q] by simp
    then have "q dvd j1 - j2" by simp
    moreover have "j1 - j2 < q" using that by simp
    ultimately have "j1 - j2 = 0" using nat_dvd_not_less [of "j1 - j2" q] by auto
    then show ?thesis using that by simp
  qed
  show ?thesis
  proof (cases "j' \<le> j")
    case True
    then show ?thesis using * [of j j'] assms by simp
  next
    case False
    then show ?thesis using * [of j' j] assms by simp
  qed
qed

lemma cell_index_inj:
  assumes "64 * u + w = 64 * u' + w'" and "w < 64" and "w' < (64 :: nat)"
  shows "u = u' \<and> w = w'"
proof -
  have "(64 * u + w) div 64 = u" "(64 * u' + w') div 64 = u'"
    using assms(2,3) by simp_all
  then have "u = u'" using assms(1) by simp
  then show ?thesis using assms(1) by simp
qed

lemma pixel_pos_inj:
  assumes "pixel_pos a b j c = pixel_pos a b j' c'"
    and "j < 32" and "j' < 32" and "c < 64" and "c' < 64"
  shows "j = j' \<and> c = c'"
proof -
  let ?u = "(unat b + j) mod 32" and ?u' = "(unat b + j') mod 32"
  let ?w = "(unat a + c) mod 64" and ?w' = "(unat a + c') mod 64"
  have e: "64 * ?u + ?w = 64 * ?u' + ?w'"
    using assms(1) by (simp add: pixel_pos_def and_63_nat and_31_nat)
  have "?u = ?u' \<and> ?w = ?w'"
    by (rule cell_index_inj [OF e]) simp_all
  then show ?thesis
    using mod_shift_inj [of "unat b" j 32 j'] mod_shift_inj [of "unat a" c 64 c'] assms
    by simp
qed

lemma sprite_ops_distinct:
  assumes "n \<le> 32"
  shows "distinct (map fst (sprite_ops m i a b [0..<n]))"
proof -
  have "map fst (sprite_ops m i a b [0..<n]) =
      map (\<lambda>(j, c). pixel_pos a b j c) (List.product [0..<n] [0..<8])"
    by (simp add: sprite_ops_def comp_def case_prod_unfold)
  moreover have "distinct (List.product [0..<n] [0..<8])"
    by (intro distinct_product) simp_all
  moreover have "inj_on (\<lambda>(j, c). pixel_pos a b j c) (set (List.product [0..<n] [0..<8]))"
  proof (rule inj_onI)
    fix p q
    assume p: "p \<in> set (List.product [0..<n] [0..<8])"
      and q: "q \<in> set (List.product [0..<n] [0..<8])"
      and e: "(case p of (j, c) \<Rightarrow> pixel_pos a b j c) = (case q of (j, c) \<Rightarrow> pixel_pos a b j c)"
    obtain j c j' c' where pq: "p = (j, c)" "q = (j', c')"
      by (cases p, cases q) blast
    have "j < 32" "j' < 32" "c < 64" "c' < 64"
      using p q assms by (simp_all add: pq)
    then show "p = q"
      using pixel_pos_inj [of a b j c j' c'] e by (simp add: pq)
  qed
  ultimately show ?thesis by (simp add: distinct_map)
qed

lemma sprite_ops_bits: "\<forall>op \<in> set (sprite_ops m i a b js). snd op = 0 \<or> snd op = 1"
  by (auto simp add: sprite_ops_def pixel_bit_def)

lemma pixel_bit_iff: "(pixel_bit w c = 1) = bit w (7 - c)"
  by (simp add: pixel_bit_def bit_iff_and_push_bit_not_eq_0)

lemma byte_nonzero_iff: "((w :: byte) \<noteq> 0) = (\<exists>c < 8. pixel_bit w c = 1)"
proof
  assume "w \<noteq> 0"
  then obtain n where n: "bit w n"
    by (metis bit_word_eqI bit_0_eq bot_apply bot_bool_def)
  then have "n < 8" using bit_imp_le_length [OF n] by simp
  then have "7 - (7 - n) = n" "7 - n < 8" by simp_all
  then show "\<exists>c < 8. pixel_bit w c = 1"
    using n by (metis pixel_bit_iff)
next
  assume "\<exists>c < 8. pixel_bit w c = 1"
  then show "w \<noteq> 0" by (auto simp add: pixel_bit_def)
qed

lemma sprite_ops_set_pixel:
  "(\<exists>op \<in> set (sprite_ops m i a b [0..<n]). snd op = 1) = (\<exists>j < n. m (i + j) \<noteq> 0)"
  by (simp add: sprite_ops_def byte_nonzero_iff Bex_def)

lemma put_fs_out:
  "v (put_fs cpu fs) 15 = fst fs" "screen (put_fs cpu fs) = snd fs"
  by (simp_all add: put_fs_def)

lemma nibble_D_in_bounds:
  assumes "nibble_D cpu opcode = Inr t"
  shows "\<forall>j \<in> set [0..<unat (OPCODE_N opcode)]. unat (i_reg cpu) + j < 4096"
proof -
  have "\<exists>t. draw_rows (unat (OPCODE_X opcode)) (unat (OPCODE_Y opcode))
      [0..<unat (OPCODE_N opcode)] (set_v cpu 15 0) = Inr t"
    using assms by (auto simp add: nibble_D_def)
  then show ?thesis by (simp add: draw_rows_ok set_v_def)
qed

lemma columns: "[0..<8] = [0, 1, 2, 3, 4, 5, 6, 7]"
  by (simp add: upt_rec numeral_eq_Suc)

lemma glyph_draw1:
  "\<not> isl (nibble_D glyph_machine 0xD001) \<and> v (projr (nibble_D glyph_machine 0xD001)) 15 = 0"
  by (simp add: glyph_machine_def init_machine_def hexcodes_def nibble_D_def
      set_v_def draw_row_def draw_pixel_def Let_def columns and_63_nat and_31_nat
      OPCODE_N_def OPCODE_X_def OPCODE_Y_def)

text \<open>
  Claim C8, as amended. For coordinate registers \<open>X\<close> and \<open>Y\<close> both different from
  \<open>0xF\<close>, every framebuffer content, and every sprite whose bytes \<open>I .. I + N - 1\<close> lie
  inside the memory (the first draw returns a machine): a second \<open>DXYN\<close> with the same
  operands restores the framebuffer to its content before the first draw. If the first
  draw reported no collision, the second draw reports one (register \<open>0xF\<close> is 1)
  exactly when the sprite has a set bit; it reports none only for a sprite without set
  bits.
\<close>

theorem draw_twice:
  assumes "unat (OPCODE_X opcode) \<noteq> 15" and "unat (OPCODE_Y opcode) \<noteq> 15"
    and "nibble_D cpu opcode = Inr cpu1"
  shows "\<not> isl (nibble_D cpu1 opcode) \<and>
    screen (projr (nibble_D cpu1 opcode)) = screen cpu \<and>
    (v cpu1 15 = 0 \<longrightarrow>
       v (projr (nibble_D cpu1 opcode)) 15 =
         (if \<exists>j < unat (OPCODE_N opcode). mem cpu (unat (i_reg cpu) + j) \<noteq> 0 then 1 else 0))"
proof -
  let ?x = "unat (OPCODE_X opcode)" and ?y = "unat (OPCODE_Y opcode)"
  let ?n = "unat (OPCODE_N opcode)"
  let ?ops = "sprite_ops (mem cpu) (unat (i_reg cpu)) (v cpu ?x) (v cpu ?y) [0..<?n]"
  let ?s = "screen cpu"
  have b: "\<forall>j \<in> set [0..<?n]. unat (i_reg cpu) + j < 4096"
    using assms(3) by (rule nibble_D_in_bounds)
  have d1: "nibble_D cpu opcode = Inr (put_fs cpu (plot ?ops (0, ?s)))"
    using nibble_D_plot [OF assms(1,2) b] .
  then have c1: "cpu1 = put_fs cpu (plot ?ops (0, ?s))"
    using assms(3) by simp
  have same: "mem cpu1 = mem cpu" "i_reg cpu1 = i_reg cpu"
    "v cpu1 ?x = v cpu ?x" "v cpu1 ?y = v cpu ?y"
    by (simp_all add: c1 put_fs_sel assms(1,2))
  have b1: "\<forall>j \<in> set [0..<?n]. unat (i_reg cpu1) + j < 4096"
    using b by (simp add: same)
  have d2: "nibble_D cpu1 opcode = Inr (put_fs cpu1 (plot ?ops (0, screen cpu1)))"
    using nibble_D_plot [OF assms(1,2) b1] by (simp add: same)
  have s1: "screen cpu1 = snd (plot ?ops (0, ?s))"
    by (simp add: c1 put_fs_out)
  have n: "?n \<le> 32" using OPCODE_N_less [of opcode] by simp
  have dist: "distinct (map fst ?ops)" using n by (rule sprite_ops_distinct)
  have bits: "\<forall>op \<in> set ?ops. snd op = 0 \<or> snd op = 1" by (rule sprite_ops_bits)
  have f1: "v cpu1 15 = (if \<exists>op \<in> set ?ops. snd op = 1 \<and> odd (?s (fst op)) then 1 else 0)"
    by (simp add: c1 put_fs_out fst_plot [OF dist bits])
  have flip: "odd (screen cpu1 (fst op)) = even (?s (fst op))"
    if "op \<in> set ?ops" and "snd op = 1" for op
  proof -
    have "(fst op, snd op) \<in> set ?ops" using that(1) by simp
    then have "xmask ?ops (fst op) = 1"
      using xmask_distinct [OF dist] that(2) by metis
    then show ?thesis by (simp add: s1 snd_plot even_xor_iff)
  qed
  have f2: "v (projr (nibble_D cpu1 opcode)) 15 =
      (if \<exists>op \<in> set ?ops. snd op = 1 \<and> even (?s (fst op)) then 1 else 0)"
  proof -
    have "(\<exists>op \<in> set ?ops. snd op = 1 \<and> odd (screen cpu1 (fst op)))
        = (\<exists>op \<in> set ?ops. snd op = 1 \<and> even (?s (fst op)))"
      using flip by blast
    then show ?thesis
      by (simp add: d2 put_fs_out fst_plot [OF dist bits])
  qed
  have "screen (projr (nibble_D cpu1 opcode)) = ?s"
    by (simp add: d2 put_fs_out s1 plot_twice_screen)
  moreover have "v (projr (nibble_D cpu1 opcode)) 15 =
      (if \<exists>j < ?n. mem cpu (unat (i_reg cpu) + j) \<noteq> 0 then 1 else 0)"
    if "v cpu1 15 = 0"
  proof -
    have "\<forall>op \<in> set ?ops. snd op = 1 \<longrightarrow> even (?s (fst op))"
      using that f1 by (auto split: if_splits)
    then have "(\<exists>op \<in> set ?ops. snd op = 1 \<and> even (?s (fst op)))
        = (\<exists>op \<in> set ?ops. snd op = 1)"
      by blast
    then show ?thesis by (simp only: f2 sprite_ops_set_pixel)
  qed
  ultimately show ?thesis by (simp add: d2)
qed

text \<open>
  The theorem of claim C8 at \<open>D001\<close> on a blank screen, with the first row of the glyph
  of digit 0 as the sprite: the first draw reports no collision, the second restores
  the blank screen and reports a collision.
\<close>

theorem draw_twice_witness:
  "unat (OPCODE_X 0xD001) \<noteq> 15 \<and> unat (OPCODE_Y 0xD001) \<noteq> 15 \<and>
   \<not> isl (nibble_D glyph_machine 0xD001) \<and>
   v (projr (nibble_D glyph_machine 0xD001)) 15 = 0 \<and>
   \<not> isl (nibble_D (projr (nibble_D glyph_machine 0xD001)) 0xD001) \<and>
   screen (projr (nibble_D (projr (nibble_D glyph_machine 0xD001)) 0xD001))
     = screen glyph_machine \<and>
   v (projr (nibble_D (projr (nibble_D glyph_machine 0xD001)) 0xD001)) 15 = 1"
proof -
  have xy: "unat (OPCODE_X 0xD001) \<noteq> 15" "unat (OPCODE_Y 0xD001) \<noteq> 15"
    by (simp_all add: OPCODE_X_def OPCODE_Y_def)
  have d: "nibble_D glyph_machine 0xD001 = Inr (projr (nibble_D glyph_machine 0xD001))"
    using glyph_draw1 by (cases "nibble_D glyph_machine 0xD001") simp_all
  have m: "\<exists>j < unat (OPCODE_N 0xD001). mem glyph_machine (unat (i_reg glyph_machine) + j) \<noteq> 0"
    by (simp add: OPCODE_N_def glyph_machine_def init_machine_def hexcodes_def)
  show ?thesis
    using xy glyph_draw1 m draw_twice [OF xy d] by simp
qed

text \<open>
  Claim C8 as stated fails in two ways. On a blank screen the first \<open>D001\<close> of the
  glyph row reports no collision and the second one does report a collision. And with
  \<open>X = 0xF\<close> the draw reads its own collision flag as a coordinate: on a screen with the
  top left cell set, two \<open>DF01\<close> of the sprite row \<open>0xC0\<close> leave cell 1 set, which was
  clear before the first draw.
\<close>

theorem draw_twice_counterexample:
  "screen glyph_machine 0 = 0 \<and>
   v (projr (nibble_D glyph_machine 0xD001)) 15 = 0 \<and>
   v (projr (nibble_D (projr (nibble_D glyph_machine 0xD001)) 0xD001)) 15 \<noteq> 0 \<and>
   unat (OPCODE_X 0xDF01) = 15 \<and>
   screen (projr (nibble_D (projr (nibble_D flag_sprite_machine 0xDF01)) 0xDF01)) 1
     \<noteq> screen flag_sprite_machine 1"
  by (simp add: glyph_machine_def flag_sprite_machine_def init_machine_def hexcodes_def
      nibble_D_def set_v_def draw_row_def draw_pixel_def Let_def columns and_63_nat and_31_nat
      OPCODE_N_def OPCODE_X_def OPCODE_Y_def)

end
